theory Spec2Isabelle
  imports Main "HOL-Library.Word" "HOL-Library.AList"
begin

section \<open>JavaScript strings\<close>

text \<open>
  A JavaScript string is a sequence of UTF-16 code units: \<open>s.length\<close>, \<open>s[j]\<close>,
  \<open>s.substring\<close> and \<open>s.charCodeAt\<close> all count code units, while the string
  iterator behind \<open>for (const char of word)\<close> yields code points, joining a high
  surrogate with the low surrogate that follows it into one two-unit string.
\<close>

type_synonym code_unit = "16 word"
type_synonym jsstring = "code_unit list"

definition js :: "string \<Rightarrow> jsstring" where
  "js s = map (\<lambda>c. of_nat (of_char c)) s"

definition star :: code_unit where
  "star = 42"

definition is_high :: "code_unit \<Rightarrow> bool" where
  "is_high c \<longleftrightarrow> 55296 \<le> c \<and> c \<le> 56319"

definition is_low :: "code_unit \<Rightarrow> bool" where
  "is_low c \<longleftrightarrow> 56320 \<le> c \<and> c \<le> 57343"

text \<open>The string iterator: the code points of a string, each as a one- or two-unit string.\<close>

fun code_points :: "jsstring \<Rightarrow> jsstring list" where
  "code_points [] = []"
| "code_points [c] = [[c]]"
| "code_points (c # d # cs) =
     (if is_high c \<and> is_low d then [c, d] # code_points cs
      else [c] # code_points (d # cs))"

text \<open>A string without a surrogate pair: every code point is one code unit.\<close>

fun pair_free :: "jsstring \<Rightarrow> bool" where
  "pair_free [] = True"
| "pair_free [c] = True"
| "pair_free (c # d # cs) = (\<not> (is_high c \<and> is_low d) \<and> pair_free (d # cs))"

text \<open>\<open>String.prototype.trim\<close> strips WhiteSpace and LineTerminator code units.\<close>

definition is_space :: "code_unit \<Rightarrow> bool" where
  "is_space c \<longleftrightarrow>
     c \<in> set [9, 10, 11, 12, 13, 32, 160, 5760, 8192, 8193, 8194, 8195, 8196, 8197,
              8198, 8199, 8200, 8201, 8202, 8232, 8233, 8239, 8287, 12288, 65279]"

definition trim :: "jsstring \<Rightarrow> jsstring" where
  "trim s = rev (dropWhile is_space (rev (dropWhile is_space s)))"

text \<open>\<open>s.substring(a, b)\<close> for \<open>a \<le> b\<close>, and \<open>s.substring(a)\<close>: indices are clamped.\<close>

definition substring :: "jsstring \<Rightarrow> nat \<Rightarrow> nat \<Rightarrow> jsstring" where
  "substring s a b = take (b - a) (drop a s)"

definition substring_from :: "jsstring \<Rightarrow> nat \<Rightarrow> jsstring" where
  "substring_from s a = drop a s"

text \<open>\<open>w\<close> occurs in \<open>t\<close> as a contiguous substring.\<close>

definition occurs_at :: "jsstring \<Rightarrow> nat \<Rightarrow> jsstring \<Rightarrow> bool" where
  "occurs_at w p t \<longleftrightarrow> p + length w \<le> length t \<and> take (length w) (drop p t) = w"

definition contains :: "jsstring \<Rightarrow> jsstring \<Rightarrow> bool" where
  "contains t w \<longleftrightarrow> (\<exists>p \<in> set [0 ..< Suc (length t)]. occurs_at w p t)"

section \<open>The sensitive-word trie (filterRules.js, class Trie)\<close>

text \<open>
  \<open>TrieNode\<close>: \<open>children\<close> is a \<open>Map\<close> from strings of one code point to nodes,
  kept here as an association list in insertion order; \<open>isEnd\<close> marks the end of a word.
\<close>

datatype trie = TrieNode (isEnd: bool) (children: "(jsstring \<times> trie) list")

definition emptyNode :: trie where
  "emptyNode = TrieNode False []"

text \<open>
  \<open>addWord\<close>: walk down from the root along the code points of the word, creating the
  missing children, and set \<open>isEnd\<close> on the last node.
\<close>

fun addPath :: "jsstring list \<Rightarrow> trie \<Rightarrow> trie" where
  "addPath [] (TrieNode e cs) = TrieNode True cs"
| "addPath (ch # rest) (TrieNode e cs) =
     (case map_of cs ch of
        None \<Rightarrow> TrieNode e (cs @ [(ch, addPath rest emptyNode)])
      | Some n \<Rightarrow> TrieNode e (AList.update ch (addPath rest n) cs))"

definition addWord :: "jsstring \<Rightarrow> trie \<Rightarrow> trie" where
  "addWord word root = addPath (code_points word) root"

text \<open>\<open>initializeFilterRules\<close>: a fresh trie, with every word of the list added in order.\<close>

definition buildTrie :: "jsstring list \<Rightarrow> trie" where
  "buildTrie ws = fold addWord ws emptyNode"

text \<open>A match pushed by \<open>check\<close>: the object with fields \<open>word\<close>, \<open>start\<close>, \<open>end\<close>.\<close>

record wordInfo =
  word :: jsstring
  start :: nat
  end' :: nat

text \<open>
  The inner \<open>while\<close> loop of \<open>check\<close>, from node \<open>node\<close> at index \<open>j\<close> with
  \<open>currentWord\<close> collected so far: it follows \<open>text[j]\<close> while the node has that child
  and pushes a match at every node with \<open>isEnd\<close>.
\<close>

function walk :: "jsstring \<Rightarrow> nat \<Rightarrow> trie \<Rightarrow> nat \<Rightarrow> jsstring \<Rightarrow> wordInfo list" where
  "walk text i node j currentWord =
     (if j < length text then
        (case map_of (children node) [text ! j] of
           None \<Rightarrow> []
         | Some node' \<Rightarrow>
             (if isEnd node'
              then [\<lparr>word = currentWord @ [text ! j], start = i, end' = Suc j\<rparr>]
              else [])
             @ walk text i node' (Suc j) (currentWord @ [text ! j]))
      else [])"
  by pat_completeness auto
termination
  by (relation "measure (\<lambda>(text, i, node, j, currentWord). length text - j)") auto

declare walk.simps [simp del]

text \<open>\<open>check\<close>: the outer \<open>for\<close> loop over every start index; \<open>words\<close> of its result.\<close>

definition check_words :: "trie \<Rightarrow> jsstring \<Rightarrow> wordInfo list" where
  "check_words root text = concat (map (\<lambda>i. walk text i root i []) [0 ..< length text])"

definition hasSensitive :: "trie \<Rightarrow> jsstring \<Rightarrow> bool" where
  "hasSensitive root text \<longleftrightarrow> check_words root text \<noteq> []"

text \<open>
  \<open>Array.prototype.sort\<close> with the comparator \<open>b.word.length - a.word.length\<close>: a
  stable sort by descending word length.
\<close>

definition sortedWords :: "wordInfo list \<Rightarrow> wordInfo list" where
  "sortedWords ms = sort_key (\<lambda>m. - int (length (word m))) ms"

text \<open>
  One iteration of the replacement loop of \<open>filter\<close>, on the pair of \<open>uniquePositions\<close>
  and \<open>filteredText\<close>. The position key \<open>`${start}-${end}`\<close> is the pair of numbers.
\<close>

definition replaceStep :: "wordInfo \<Rightarrow> (nat \<times> nat) set \<times> jsstring \<Rightarrow> (nat \<times> nat) set \<times> jsstring" where
  "replaceStep wi st =
     (case st of (uniquePositions, filteredText) \<Rightarrow>
        if (start wi, end' wi) \<notin> uniquePositions
        then (insert (start wi, end' wi) uniquePositions,
              substring filteredText 0 (start wi) @ replicate (length (word wi)) star
                @ substring_from filteredText (end' wi))
        else (uniquePositions, filteredText))"

definition filterState :: "trie \<Rightarrow> jsstring \<Rightarrow> (nat \<times> nat) set \<times> jsstring" where
  "filterState root text =
     (if hasSensitive root text
      then fold replaceStep (sortedWords (check_words root text)) ({}, text)
      else ({}, text))"

definition filter_text :: "trie \<Rightarrow> jsstring \<Rightarrow> jsstring" where
  "filter_text root text = snd (filterState root text)"

text \<open>The spans that \<open>filter\<close> has replaced: the final \<open>uniquePositions\<close>.\<close>

definition replacedSpans :: "trie \<Rightarrow> jsstring \<Rightarrow> (nat \<times> nat) set" where
  "replacedSpans root text = fst (filterState root text)"


section \<open>Values received from clients\<close>

text \<open>
  The fields of a message arrive as JSON: a field may be absent (\<open>undefined\<close>), \<open>null\<close>,
  a boolean, a number, a string, an array or an object. Of a number only its truthiness
  and its \<open>typeof\<close> are ever used, so it is kept as an integer. An object is kept by the
  two facts about it that the code depends on:
  \<^item> \<open>lengthLoops\<close>: the test \<open>0 < obj.length\<close> passes or throws, as it does for
    \<open>{length: 1}\<close> (and does not for \<open>{}\<close>, whose \<open>length\<close> is \<open>undefined\<close>);
  \<^item> \<open>ownToString\<close>: the object has a property \<open>toString\<close> of its own, which JSON
    cannot make callable, so that converting the object to a string throws.
\<close>

datatype jsval =
    JUndefined | JNull | JBool bool | JNum int | JStr jsstring
  | JArr "jsval list"
  | JObj (lengthLoops: bool) (ownToString: bool)

fun truthy :: "jsval \<Rightarrow> bool" where
  "truthy JUndefined = False"
| "truthy JNull = False"
| "truthy (JBool b) = b"
| "truthy (JNum n) = (n \<noteq> 0)"
| "truthy (JStr s) = (s \<noteq> [])"
| "truthy (JArr xs) = True"
| "truthy (JObj l t) = True"

text \<open>
  Whether the conversion to a string in a template literal returns: an array joins the
  conversions of its elements.
\<close>

fun printable :: "jsval \<Rightarrow> bool" where
  "printable (JArr xs) = (\<forall>x \<in> set xs. printable x)"
| "printable (JObj l t) = (\<not> t)"
| "printable v = True"

section \<open>Content filter (filterRules.js, filterDanmaku)\<close>

text \<open>The reason strings of the source, one constructor for each literal.\<close>

datatype reason =
    ContentFormatError          \<comment> \<open>filterRules.js line 131\<close>
  | ContentTooLong              \<comment> \<open>filterRules.js line 148\<close>
  | HasSensitiveWord            \<comment> \<open>filterRules.js line 168, first alternative\<close>
  | FilterPassed                \<comment> \<open>filterRules.js line 168, second alternative\<close>
  | FilterNotEnabled            \<comment> \<open>filterRules.js line 176\<close>
  | SendTooFrequent nat         \<comment> \<open>filterRules.js line 196, with the limit it prints\<close>
  | RoomTooBusy                 \<comment> \<open>filterRules.js line 211\<close>
  | RateLimitPassed             \<comment> \<open>filterRules.js line 220\<close>
  | RateCheckFailedOpen         \<comment> \<open>filterRules.js line 228\<close>
  | TooManyDuplicates           \<comment> \<open>filterRules.js line 249\<close>
  | DuplicatePassed             \<comment> \<open>filterRules.js line 258\<close>
  | DuplicateCheckFailedOpen    \<comment> \<open>filterRules.js line 266\<close>
  | DoNotRepeat                 \<comment> \<open>socketHandlers.js line 56\<close>
  | ContentHasSensitiveWord     \<comment> \<open>socketHandlers.js line 67\<close>
  | ServerProcessingFailed      \<comment> \<open>socketHandlers.js lines 125 and 152\<close>
  | RoomNotExist                \<comment> \<open>socketHandlers.js line 245\<close>

record verdict =
  allowed :: bool
  reason :: reason

record filterResult = verdict +
  content :: jsstring

text \<open>Lines 157 to 178: the sensitive-word check on the trimmed content.\<close>

definition filterSensitive :: "trie option \<Rightarrow> jsstring \<Rightarrow> filterResult" where
  "filterSensitive sensitiveWordTrie trimmedContent =
     (case sensitiveWordTrie of
        Some t \<Rightarrow>
          (let filterResult = filter_text t trimmedContent;
               hasSens = (filterResult \<noteq> trimmedContent)
           in \<lparr>allowed = \<not> hasSens,
               reason = (if hasSens then HasSensitiveWord else FilterPassed),
               content = filterResult\<rparr>)
      | None \<Rightarrow> \<lparr>allowed = True, reason = FilterNotEnabled, content = trimmedContent\<rparr>)"

fun filterDanmaku :: "trie option \<Rightarrow> jsval \<Rightarrow> filterResult" where
  "filterDanmaku sensitiveWordTrie (JStr s) =
     (let trimmedContent = (if s \<noteq> [] then trim s else [])
      in if s \<noteq> [] \<and> length trimmedContent > 50
         then \<lparr>allowed = False, reason = ContentTooLong, content = trimmedContent\<rparr>
         else filterSensitive sensitiveWordTrie trimmedContent)"
| "filterDanmaku sensitiveWordTrie v =
     (if truthy v
      then \<lparr>allowed = False, reason = ContentFormatError, content = []\<rparr>
      else filterSensitive sensitiveWordTrie [])"

section \<open>The counter store (database.js, redisUtils.incrWithExpire)\<close>

text \<open>
  Modelled from the spec: the shared counter store is an external Redis server, reached
  through the \<open>redis\<close> package, and is not part of the repository. Its \<open>INCR\<close> and
  \<open>EXPIRE\<close> commands follow the CounterEntry contract: incrementing an absent (or expired)
  key creates it with value 1, incrementing an existing key returns the value after the
  increment and leaves its time-to-live alone, and a key whose time-to-live has elapsed is
  absent. Time is in milliseconds. The client records the commands it has served, and
  either command may fail (the connection is down), which the caller sees as an exception.
\<close>

record entry =
  count :: nat
  expiry :: "nat option"

datatype command = INCR jsstring | EXPIRE jsstring nat

record redis =
  entries :: "jsstring \<Rightarrow> entry option"
  served :: "command list"
  incrFails :: bool
  expireFails :: bool

datatype redisError = ConnectionError

definition live :: "nat \<Rightarrow> entry \<Rightarrow> bool" where
  "live now e = (case expiry e of None \<Rightarrow> True | Some t \<Rightarrow> now < t)"

definition lookup :: "nat \<Rightarrow> redis \<Rightarrow> jsstring \<Rightarrow> entry option" where
  "lookup now c k = (case entries c k of None \<Rightarrow> None | Some e \<Rightarrow> if live now e then Some e else None)"

definition incr :: "nat \<Rightarrow> redis \<Rightarrow> jsstring \<Rightarrow> redisError + nat \<times> redis" where
  "incr now c k =
     (if incrFails c then Inl ConnectionError
      else let e' = (case lookup now c k of
                       None \<Rightarrow> \<lparr>count = 1, expiry = None\<rparr>
                     | Some e \<Rightarrow> e\<lparr>count := Suc (count e)\<rparr>)
           in Inr (count e', c\<lparr>entries := (entries c)(k \<mapsto> e'), served := served c @ [INCR k]\<rparr>))"

definition expire :: "nat \<Rightarrow> redis \<Rightarrow> jsstring \<Rightarrow> nat \<Rightarrow> redisError + redis" where
  "expire now c k seconds =
     (if expireFails c then Inl ConnectionError
      else Inr (c\<lparr>entries := (case lookup now c k of
                                 None \<Rightarrow> entries c
                               | Some e \<Rightarrow> (entries c)(k \<mapsto> e\<lparr>expiry := Some (now + seconds * 1000)\<rparr>)),
                  served := served c @ [EXPIRE k seconds]\<rparr>))"

record incrResult =
  counterValue :: nat
  hasRedis :: bool

text \<open>
  \<open>incrWithExpire(key, expireSeconds)\<close> at time \<open>now\<close>; \<open>redisClient\<close> is \<open>null\<close>
  (\<open>None\<close>) when the connection was never made. Both failures are caught and reported
  as \<open>hasRedis: false\<close>.
\<close>

definition fullKey :: "jsstring \<Rightarrow> jsstring" where
  "fullKey key = js ''danmaku:'' @ key"

definition incrWithExpire ::
  "nat \<Rightarrow> redis option \<Rightarrow> jsstring \<Rightarrow> nat \<Rightarrow> incrResult \<times> redis option" where
  "incrWithExpire now rc key expireSeconds =
     (case rc of
        None \<Rightarrow> (\<lparr>counterValue = 1, hasRedis = False\<rparr>, None)
      | Some c \<Rightarrow>
          (let k = fullKey key
           in case incr now c k of
                Inl err \<Rightarrow> (\<lparr>counterValue = 1, hasRedis = False\<rparr>, Some c)
              | Inr (v, c') \<Rightarrow>
                  if v = 1
                  then (case expire now c' k expireSeconds of
                          Inl err \<Rightarrow> (\<lparr>counterValue = 1, hasRedis = False\<rparr>, Some c')
                        | Inr c'' \<Rightarrow> (\<lparr>counterValue = v, hasRedis = True\<rparr>, Some c''))
                  else (\<lparr>counterValue = v, hasRedis = True\<rparr>, Some c')))"

section \<open>Rate limit and duplicate check (filterRules.js)\<close>

record rateLimit =
  messagesPerSecond :: nat
  timeWindow :: nat

record config =
  userRateLimit :: rateLimit
  roomRateLimit :: rateLimit
  maxDuplicateCount :: nat
  duplicateTimeWindow :: nat

definition defaultConfig :: config where
  "defaultConfig =
     \<lparr>userRateLimit = \<lparr>messagesPerSecond = 2, timeWindow = 1\<rparr>,
      roomRateLimit = \<lparr>messagesPerSecond = 1000, timeWindow = 1\<rparr>,
      maxDuplicateCount = 3,
      duplicateTimeWindow = 10\<rparr>"

record rateResult = verdict +
  limit :: "nat option"
  current :: "nat option"

definition userKey :: "jsstring \<Rightarrow> jsstring" where
  "userKey userId = js ''rate_limit:user:'' @ userId"

definition roomKey :: "jsstring \<Rightarrow> jsstring" where
  "roomKey roomId = js ''rate_limit:room:'' @ roomId"

text \<open>
  \<open>checkRateLimit\<close>: the sender's counter first, the room's counter only when the
  sender passed. \<open>incrWithExpire\<close> never throws, so the \<open>catch\<close> branch is not reached.
\<close>

definition checkRateLimit ::
  "config \<Rightarrow> nat \<Rightarrow> redis option \<Rightarrow> jsstring \<Rightarrow> jsstring \<Rightarrow> rateResult \<times> redis option" where
  "checkRateLimit cfg now rc userId roomId =
     (case incrWithExpire now rc (userKey userId) (timeWindow (userRateLimit cfg)) of
        (userResult, rc1) \<Rightarrow>
          if hasRedis userResult \<and> counterValue userResult > messagesPerSecond (userRateLimit cfg)
          then (\<lparr>allowed = False,
                 reason = SendTooFrequent (messagesPerSecond (userRateLimit cfg)),
                 limit = Some (messagesPerSecond (userRateLimit cfg)),
                 current = Some (counterValue userResult)\<rparr>, rc1)
          else
            (case incrWithExpire now rc1 (roomKey roomId) (timeWindow (roomRateLimit cfg)) of
               (roomResult, rc2) \<Rightarrow>
                 if hasRedis roomResult \<and> counterValue roomResult > messagesPerSecond (roomRateLimit cfg)
                 then (\<lparr>allowed = False, reason = RoomTooBusy,
                        limit = Some (messagesPerSecond (roomRateLimit cfg)),
                        current = Some (counterValue roomResult)\<rparr>, rc2)
                 else (\<lparr>allowed = True, reason = RateLimitPassed,
                        limit = None, current = None\<rparr>, rc2)))"

text \<open>\<open>Number.prototype.toString(36)\<close> of a non-negative integer.\<close>

definition digit36 :: "nat \<Rightarrow> code_unit" where
  "digit36 d = (if d < 10 then of_nat (48 + d) else of_nat (87 + d))"

function toString36 :: "nat \<Rightarrow> jsstring" where
  "toString36 n = (if n < 36 then [digit36 n] else toString36 (n div 36) @ [digit36 (n mod 36)])"
  by pat_completeness auto
termination
  by (relation "measure id") auto

declare toString36.simps [simp del]

text \<open>
  \<open>hashString\<close>: \<open>hash << 5\<close> and \<open>hash & hash\<close> work on 32-bit integers, and the
  numbers in between stay exact, so the loop is arithmetic on 32-bit words, read back as
  a signed number by \<open>Math.abs\<close>.
\<close>

definition hashString :: "jsstring \<Rightarrow> jsstring" where
  "hashString str =
     (if length str = 0 then toString36 0
      else toString36 (nat \<bar>sint (fold (\<lambda>char hash. (push_bit 5 hash - hash) + ucast char) str (0 :: 32 word))\<bar>))"

record dupResult = verdict +
  currentCount :: "nat option"
  maxCount :: "nat option"

definition duplicateKey :: "jsstring \<Rightarrow> jsstring \<Rightarrow> jsstring" where
  "duplicateKey userId h = js ''duplicate:'' @ userId @ js '':'' @ h"

definition countDuplicate ::
  "config \<Rightarrow> nat \<Rightarrow> redis option \<Rightarrow> jsstring \<Rightarrow> dupResult \<times> redis option" where
  "countDuplicate cfg now rc messageKey =
     (case incrWithExpire now rc messageKey (duplicateTimeWindow cfg) of
        (result, rc') \<Rightarrow>
          if hasRedis result \<and> counterValue result > maxDuplicateCount cfg
          then (\<lparr>allowed = False, reason = TooManyDuplicates,
                 currentCount = Some (counterValue result),
                 maxCount = Some (maxDuplicateCount cfg)\<rparr>, rc')
          else (\<lparr>allowed = True, reason = DuplicatePassed,
                 currentCount = None, maxCount = None\<rparr>, rc'))"

text \<open>
  \<open>hashString(content)\<close> for any content; \<open>None\<close> when it throws. For \<open>undefined\<close> and
  \<open>null\<close> the read of \<open>str.length\<close> throws. A boolean or a number has no \<open>length\<close>, so
  the loop does not run and the hash is that of the number 0; so it is for an empty array
  and for an object on which the loop test fails. On a non-empty array, and on an object
  on which the loop test passes or throws, the call \<open>str.charCodeAt(i)\<close> or the test
  itself throws.
\<close>

fun hashValue :: "jsval \<Rightarrow> jsstring option" where
  "hashValue (JStr s) = Some (hashString s)"
| "hashValue JUndefined = None"
| "hashValue JNull = None"
| "hashValue (JBool b) = Some (toString36 0)"
| "hashValue (JNum n) = Some (toString36 0)"
| "hashValue (JArr xs) = (if length xs = 0 then Some (toString36 0) else None)"
| "hashValue (JObj l t) = (if l then None else Some (toString36 0))"

definition failOpen :: dupResult where
  "failOpen =
     \<lparr>allowed = True, reason = DuplicateCheckFailedOpen, currentCount = None, maxCount = None\<rparr>"

text \<open>
  \<open>checkDuplicateMessage(userId, content)\<close>, with \<open>c\<close> for \<open>content\<close>. When \<open>hashString\<close> throws, no counter is
  touched and the \<open>catch\<close> branch allows the message. Otherwise the counter is
  incremented; the log line that follows converts \<open>content\<close> to a string, and when that
  throws the \<open>catch\<close> branch allows the message whatever the count.
\<close>

definition checkDuplicateMessage ::
  "config \<Rightarrow> nat \<Rightarrow> redis option \<Rightarrow> jsstring \<Rightarrow> jsval \<Rightarrow> dupResult \<times> redis option" where
  "checkDuplicateMessage cfg now rc userId c =
     (case hashValue c of
        None \<Rightarrow> (failOpen, rc)
      | Some h \<Rightarrow>
          (case countDuplicate cfg now rc (duplicateKey userId h) of
             (result, rc') \<Rightarrow> if printable c then (result, rc') else (failOpen, rc')))"


section \<open>Admission pipeline (socketHandlers.js, processDanmaku)\<close>

record emoji =
  emojiValue :: jsstring

text \<open>
  The message sent by a client, \<open>data.danmaku\<close>: \<open>userId\<close> and \<open>id\<close> may be absent,
  \<open>emojiInfo\<close> is an object with a \<open>value\<close> when present.
\<close>

record danmaku =
  danmakuId :: "jsstring option"
  userId :: "jsstring option"
  dtype :: jsval
  content :: jsval
  emojiInfo :: "emoji option"

record finalDanmaku = danmaku +
  timestamp :: nat

record socket =
  socketId :: jsstring
  connected :: bool

record data =
  roomId :: jsstring
  danmaku :: danmaku

text \<open>
  \<open>processDanmaku\<close> and \<open>processMessageQueue\<close> are async functions, and the handlers
  call them without \<open>await\<close>: the call returns at the callee's first \<open>await\<close> and the
  rest of the callee runs after the handler has returned. A call that has been made and
  has not finished is a task:
  \<^item> \<open>Admit sock dat\<close> is \<open>processDanmaku(io, socket, data)\<close>, suspended at its first
    \<open>await\<close>, where it waits for the reply to the increment of the sender's counter:
    no check has returned and nothing has been emitted;
  \<^item> \<open>Drain rid batch\<close> is \<open>processMessageQueue(io, roomId)\<close> after it has taken
    \<open>batch\<close> off the queue: the pipeline on each message of the batch, and the stamp
    \<open>room.lastProcessTime\<close> after the last of them, are still to come.

  An increment that a task has asked for is counted in the store from the moment the task
  reads the reply, which is after the handler has returned.
\<close>

datatype task = Admit socket data | Drain jsstring "(socket \<times> data) list"

datatype emission =
    SendFailed jsstring reason        \<comment> \<open>\<open>socket.emit('send-failed', {reason})\<close>\<close>
  | NewDanmaku jsstring finalDanmaku  \<comment> \<open>\<open>io.to(roomId).emit('new-danmaku', ...)\<close>\<close>
  | OnlineCount jsstring nat          \<comment> \<open>\<open>io.to(roomId).emit('online-count', ...)\<close>\<close>

record room =
  onlineUsers :: "jsstring list"
  messageQueue :: "(socket \<times> data) list"
  lastProcessTime :: nat

text \<open>
  The module-level variables of filterRules.js, database.js and socketHandlers.js, the
  events emitted so far, the number of identifiers \<open>nanoid()\<close> has handed out, and the
  tasks started and not finished. A handler runs to its return before the next one
  starts; \<open>now\<close> is \<open>Date.now()\<close>.
\<close>

record server =
  sensitiveWordTrie :: "trie option"
  config :: config
  redisClient :: "redis option"
  roomInfo :: "(jsstring \<times> room) list"
  userMessages :: "(jsstring \<times> (jsval \<times> nat) list) list"
  emitted :: "emission list"
  idsIssued :: nat
  pending :: "task list"

definition emit :: "emission \<Rightarrow> server \<Rightarrow> server" where
  "emit e s = s\<lparr>emitted := emitted s @ [e]\<rparr>"

text \<open>\<open>danmaku.userId || socket.id\<close>.\<close>

definition senderOf :: "socket \<Rightarrow> danmaku \<Rightarrow> jsstring" where
  "senderOf sock d =
     (case userId d of
        None \<Rightarrow> socketId sock
      | Some u \<Rightarrow> if u \<noteq> [] then u else socketId sock)"

text \<open>Lines 49 to 51: what the duplicate check is keyed on.\<close>

definition checkContent :: "danmaku \<Rightarrow> jsval" where
  "checkContent d =
     (case emojiInfo d of
        Some e \<Rightarrow> if dtype d = JStr (js ''emoji'')
                  then JStr (js ''[emoji:'' @ emojiValue e @ js '']'')
                  else content d
      | None \<Rightarrow> content d)"

text \<open>Lines 84 to 92: the last ten messages of each sender.\<close>

definition remember :: "jsstring \<Rightarrow> jsval \<Rightarrow> nat \<Rightarrow> server \<Rightarrow> server" where
  "remember uid c now s =
     (let messages = (case map_of (userMessages s) uid of None \<Rightarrow> [] | Some ms \<Rightarrow> ms) @ [(c, now)];
          messages' = (if length messages > 10 then tl messages else messages)
      in s\<lparr>userMessages := AList.update uid messages' (userMessages s)\<rparr>)"

text \<open>
  Step 4: the object that is broadcast. A client's own \<open>id\<close> survives the spread of
  \<open>danmaku\<close> over the generated one; \<open>content\<close>, \<open>timestamp\<close> and \<open>emojiInfo\<close> are
  set after it.
\<close>

definition finalize :: "jsstring \<Rightarrow> nat \<Rightarrow> danmaku \<Rightarrow> jsval \<Rightarrow> finalDanmaku" where
  "finalize newId now d finalContent =
     \<lparr>danmakuId = (case danmakuId d of None \<Rightarrow> Some newId | Some i \<Rightarrow> Some i),
      userId = userId d,
      dtype = dtype d,
      content = finalContent,
      emojiInfo = (if dtype d = JStr (js ''emoji'') then emojiInfo d else None),
      timestamp = now\<rparr>"

text \<open>
  Step 3: \<open>filterResult\<close> starts as \<open>{allowed: true, content: danmaku.content}\<close> and is
  replaced by the result of \<open>filterDanmaku\<close> only when the content is truthy.
\<close>

definition contentCheck :: "trie option \<Rightarrow> jsval \<Rightarrow> bool \<times> jsval" where
  "contentCheck t c =
     (if truthy c
      then (let filterResult = filterDanmaku t c
            in (allowed filterResult, JStr (filterResult.content filterResult)))
      else (True, c))"

text \<open>
  \<open>processDanmaku\<close>, steps 1 to 6. \<open>nanoid\<close> is the generator of identifiers. Step 7,
  the optional copy into MongoDB, emits nothing and changes none of the variables above.
\<close>

definition processDanmaku ::
  "(nat \<Rightarrow> jsstring) \<Rightarrow> nat \<Rightarrow> socket \<Rightarrow> data \<Rightarrow> server \<Rightarrow> server" where
  "processDanmaku nanoid now sock dat s =
     (let d = danmaku dat; uid = senderOf sock d
      in case checkRateLimit (config s) now (redisClient s) uid (roomId dat) of
           (rateLimitResult, rc1) \<Rightarrow>
             if \<not> allowed rateLimitResult
             then emit (SendFailed (socketId sock) (reason rateLimitResult)) (s\<lparr>redisClient := rc1\<rparr>)
             else
               (case checkDuplicateMessage (config s) now rc1 uid (checkContent d) of
                  (duplicateResult, rc2) \<Rightarrow>
                    if \<not> allowed duplicateResult
                    then emit (SendFailed (socketId sock) DoNotRepeat) (s\<lparr>redisClient := rc2\<rparr>)
                    else
                      (case contentCheck (sensitiveWordTrie s) (content d) of
                         (filterAllowed, filterContent) \<Rightarrow>
                           if \<not> filterAllowed
                           then emit (SendFailed (socketId sock) ContentHasSensitiveWord)
                                  (s\<lparr>redisClient := rc2\<rparr>)
                           else
                             emit (NewDanmaku (roomId dat)
                                     (finalize (nanoid (idsIssued s)) now d filterContent))
                               (remember uid (content d) now
                                  (s\<lparr>redisClient := rc2, idsIssued := Suc (idsIssued s)\<rparr>)))))"

section \<open>Room registry and queue (socketHandlers.js)\<close>

definition initRoom :: "nat \<Rightarrow> jsstring \<Rightarrow> server \<Rightarrow> server" where
  "initRoom now rid s =
     (if map_of (roomInfo s) rid = None
      then s\<lparr>roomInfo := AList.update rid
                \<lparr>onlineUsers = [], messageQueue = [], lastProcessTime = now\<rparr> (roomInfo s)\<rparr>
      else s)"

definition updateOnlineCount :: "jsstring \<Rightarrow> server \<Rightarrow> server" where
  "updateOnlineCount rid s =
     (case map_of (roomInfo s) rid of
        None \<Rightarrow> s
      | Some r \<Rightarrow> emit (OnlineCount rid (length (onlineUsers r))) s)"

text \<open>\<open>Set.prototype.add\<close> and \<open>Set.prototype.delete\<close> on the set of online users.\<close>

definition setAdd :: "jsstring \<Rightarrow> jsstring list \<Rightarrow> jsstring list" where
  "setAdd x xs = (if x \<in> set xs then xs else xs @ [x])"

definition setDelete :: "jsstring \<Rightarrow> jsstring list \<Rightarrow> jsstring list" where
  "setDelete x xs = removeAll x xs"

text \<open>The \<open>join-room\<close> handler, without the optional replay of stored history.\<close>

definition joinRoom :: "nat \<Rightarrow> socket \<Rightarrow> jsstring \<Rightarrow> server \<Rightarrow> server" where
  "joinRoom now sock rid s =
     (let s1 = initRoom now rid s
      in case map_of (roomInfo s1) rid of
           None \<Rightarrow> s1
         | Some r \<Rightarrow>
             updateOnlineCount rid
               (s1\<lparr>roomInfo := AList.update rid
                      (r\<lparr>onlineUsers := setAdd (socketId sock) (onlineUsers r)\<rparr>) (roomInfo s1)\<rparr>))"

text \<open>
  The body shared by \<open>leave-room\<close> and by each round of the loop of \<open>disconnect\<close>: remove
  the user, announce the count, and delete the room when nobody and nothing is left.
\<close>

definition removeUser :: "socket \<Rightarrow> jsstring \<Rightarrow> room \<Rightarrow> server \<Rightarrow> server" where
  "removeUser sock rid r s =
     (let r' = r\<lparr>onlineUsers := setDelete (socketId sock) (onlineUsers r)\<rparr>;
          s1 = updateOnlineCount rid (s\<lparr>roomInfo := AList.update rid r' (roomInfo s)\<rparr>)
      in if length (onlineUsers r') = 0 \<and> length (messageQueue r') = 0
         then s1\<lparr>roomInfo := AList.delete rid (roomInfo s1)\<rparr>
         else s1)"

definition leaveRoom :: "socket \<Rightarrow> jsstring \<Rightarrow> server \<Rightarrow> server" where
  "leaveRoom sock rid s =
     (case map_of (roomInfo s) rid of
        None \<Rightarrow> s
      | Some r \<Rightarrow> removeUser sock rid r s)"

definition disconnectStep :: "socket \<Rightarrow> jsstring \<Rightarrow> server \<Rightarrow> server" where
  "disconnectStep sock rid s =
     (case map_of (roomInfo s) rid of
        None \<Rightarrow> s
      | Some r \<Rightarrow> if socketId sock \<in> set (onlineUsers r) then removeUser sock rid r s else s)"

text \<open>The \<open>disconnect\<close> handler: every room in turn, then the user's message cache.\<close>

definition disconnect :: "socket \<Rightarrow> server \<Rightarrow> server" where
  "disconnect sock s =
     (let s1 = fold (disconnectStep sock) (map fst (roomInfo s)) s
      in s1\<lparr>userMessages := AList.delete (socketId sock) (userMessages s1)\<rparr>)"

definition batchSize :: nat where
  "batchSize = 50"

text \<open>
  \<open>processMessageQueue\<close> up to its first \<open>await\<close>: when the room exists and its queue
  is not empty, up to 50 messages are taken off the front of the queue. The rest of the
  function is the task \<open>Drain\<close>.
\<close>

definition processMessageQueue :: "jsstring \<Rightarrow> server \<Rightarrow> server" where
  "processMessageQueue rid s =
     (case map_of (roomInfo s) rid of
        None \<Rightarrow> s
      | Some r \<Rightarrow>
          if length (messageQueue r) = 0 then s
          else
            (let messagesToProcess = take batchSize (messageQueue r)
             in s\<lparr>roomInfo := AList.update rid
                      (r\<lparr>messageQueue := drop batchSize (messageQueue r)\<rparr>) (roomInfo s),
                  pending := pending s @ [Drain rid messagesToProcess]\<rparr>))"

text \<open>\<open>room.messageQueue.push({ socket, data })\<close>.\<close>

definition enqueue :: "socket \<Rightarrow> data \<Rightarrow> room \<Rightarrow> server \<Rightarrow> server" where
  "enqueue sock dat r s =
     s\<lparr>roomInfo := AList.update (roomId dat)
                      (r\<lparr>messageQueue := messageQueue r @ [(sock, dat)]\<rparr>) (roomInfo s)\<rparr>"






section \<open>Notions used in the statements\<close>

text \<open>The node reached from \<open>n\<close> along a list of child keys, and whether it ends a word.\<close>

fun descend :: "trie \<Rightarrow> jsstring list \<Rightarrow> trie option" where
  "descend n [] = Some n"
| "descend n (k # ks) =
     (case map_of (children n) k of None \<Rightarrow> None | Some n' \<Rightarrow> descend n' ks)"

definition terminal :: "trie \<Rightarrow> jsstring list \<Rightarrow> bool" where
  "terminal t ks = (case descend t ks of None \<Rightarrow> False | Some n \<Rightarrow> isEnd n)"

text \<open>
  The invariant of the replacement loop of \<open>filter\<close>: the length is kept, every span in
  \<open>uniquePositions\<close> is masked, and an unmasked position still holds its original unit.
\<close>

definition masked_inv :: "jsstring \<Rightarrow> (nat \<times> nat) set \<times> jsstring \<Rightarrow> bool" where
  "masked_inv tx st \<longleftrightarrow>
     length (snd st) = length tx \<and>
     (\<forall>(s, e) \<in> fst st. \<forall>p. s \<le> p \<and> p < e \<and> p < length tx \<longrightarrow> snd st ! p = star) \<and>
     (\<forall>p < length tx. snd st ! p \<noteq> star \<longrightarrow> snd st ! p = tx ! p)"

text \<open>The value the next \<open>INCR\<close> of a key returns.\<close>

definition nextCount :: "nat \<Rightarrow> redis \<Rightarrow> jsstring \<Rightarrow> nat" where
  "nextCount now c k = (case lookup now c k of None \<Rightarrow> 1 | Some e \<Rightarrow> Suc (count e))"

text \<open>The store after a successful \<open>incrWithExpire\<close> of the (full) key \<open>k\<close>.\<close>

definition touch :: "nat \<Rightarrow> redis \<Rightarrow> jsstring \<Rightarrow> nat \<Rightarrow> redis" where
  "touch now c k seconds =
     (let e1 = (case lookup now c k of
                  None \<Rightarrow> \<lparr>count = 1, expiry = None\<rparr>
                | Some e \<Rightarrow> e\<lparr>count := Suc (count e)\<rparr>);
          e2 = (if count e1 = 1 then e1\<lparr>expiry := Some (now + seconds * 1000)\<rparr> else e1)
      in c\<lparr>entries := (entries c)(k \<mapsto> e2),
           served := served c @ INCR k # (if count e1 = 1 then [EXPIRE k seconds] else [])\<rparr>)"

text \<open>The keys of the \<open>INCR\<close> commands a store has served, in order.\<close>

fun incrKey :: "command \<Rightarrow> jsstring list" where
  "incrKey (INCR k) = [k]"
| "incrKey (EXPIRE k n) = []"

definition incrKeys :: "redis option \<Rightarrow> jsstring list" where
  "incrKeys rc = (case rc of None \<Rightarrow> [] | Some c \<Rightarrow> concat (map incrKey (served c)))"


text \<open>The counter of a key, live or not, is at most \<open>n\<close>.\<close>

definition bounded :: "redis \<Rightarrow> jsstring \<Rightarrow> nat \<Rightarrow> bool" where
  "bounded c k n = (case entries c k of None \<Rightarrow> True | Some e \<Rightarrow> count e \<le> n)"


text \<open>A reachable store that holds no counter yet, and one whose connection is down.\<close>

definition emptyRedis :: redis where
  "emptyRedis = \<lparr>entries = (\<lambda>k. None), served = [], incrFails = False, expireFails = False\<rparr>"

definition downRedis :: redis where
  "downRedis = \<lparr>entries = (\<lambda>k. None), served = [], incrFails = True, expireFails = True\<rparr>"


text \<open>The full key the duplicate check counts under, when its key can be computed.\<close>

definition duplicateKeyOf :: "jsstring \<Rightarrow> jsval \<Rightarrow> jsstring option" where
  "duplicateKeyOf uid v =
     (case hashValue v of None \<Rightarrow> None | Some h \<Rightarrow> Some (fullKey (duplicateKey uid h)))"

text \<open>
  The store serves \<open>INCR\<close>; and \<open>incrWithExpire\<close> on the full key \<open>k\<close> reports
  \<open>hasRedis: true\<close> with a value above \<open>lim\<close>, so that a check with this limit fails.
\<close>

definition counting :: "redis option \<Rightarrow> bool" where
  "counting rc = (case rc of None \<Rightarrow> False | Some c \<Rightarrow> \<not> incrFails c)"

definition exceeds :: "nat \<Rightarrow> redis option \<Rightarrow> jsstring \<Rightarrow> nat \<Rightarrow> bool" where
  "exceeds now rc k lim =
     (case rc of
        None \<Rightarrow> False
      | Some c \<Rightarrow>
          \<not> incrFails c \<and> (nextCount now c k = 1 \<longrightarrow> \<not> expireFails c) \<and> lim < nextCount now c k)"

text \<open>The store after \<open>incrWithExpire\<close> of the full key \<open>k\<close>, whatever its health.\<close>

definition bump :: "nat \<Rightarrow> redis \<Rightarrow> jsstring \<Rightarrow> nat \<Rightarrow> redis" where
  "bump now c k seconds =
     (if incrFails c then c
      else
        (let e1 = (case lookup now c k of
                     None \<Rightarrow> \<lparr>count = 1, expiry = None\<rparr>
                   | Some e \<Rightarrow> e\<lparr>count := Suc (count e)\<rparr>);
             setsExpiry = (count e1 = 1 \<and> \<not> expireFails c);
             e2 = (if setsExpiry then e1\<lparr>expiry := Some (now + seconds * 1000)\<rparr> else e1)
         in c\<lparr>entries := (entries c)(k \<mapsto> e2),
              served := served c @ INCR k # (if setsExpiry then [EXPIRE k seconds] else [])\<rparr>))"

section \<open>Sample inputs\<close>

text \<open>
  The word list of \<open>initializeFilterRules\<close>: three Chinese words (the first two end in
  the digits 1 and 2), a two-character word, and spam.
\<close>

definition defaultWords :: "jsstring list" where
  "defaultWords =
     [[25935, 24863, 35789, 49], [25935, 24863, 35789, 50], [36829, 31105, 35789],
      [24191, 21578], js ''spam'']"

definition startServer :: "redis option \<Rightarrow> server" where
  "startServer rc =
     \<lparr>sensitiveWordTrie = Some (buildTrie defaultWords), config = defaultConfig,
      redisClient = rc, roomInfo = [], userMessages = [], emitted = [], idsIssued = 0,
      pending = []\<rparr>"

definition sampleIds :: "nat \<Rightarrow> jsstring" where
  "sampleIds n = js ''id'' @ toString36 n"

definition aliceSocket :: socket where
  "aliceSocket = \<lparr>socketId = js ''s1'', connected = True\<rparr>"

definition bobSocket :: socket where
  "bobSocket = \<lparr>socketId = js ''s2'', connected = True\<rparr>"

definition textData :: "jsstring \<Rightarrow> data" where
  "textData s =
     \<lparr>roomId = js ''lobby'',
      danmaku = \<lparr>danmakuId = None, userId = Some (js ''alice''), dtype = JStr (js ''text''),
                 content = JStr s, emojiInfo = None\<rparr>\<rparr>"





text \<open>A server with one room, lobby, holding one user, a given queue and a given stamp.\<close>

definition lobbyServer :: "(socket \<times> data) list \<Rightarrow> nat \<Rightarrow> server" where
  "lobbyServer q stamp =
     (startServer None)\<lparr>roomInfo :=
        [(js ''lobby'', \<lparr>onlineUsers = [js ''s1''], messageQueue = q, lastProcessTime = stamp\<rparr>)]\<rparr>"

section \<open>The trie finds every occurrence of a word\<close>

lemma terminal_Nil: "terminal t [] = isEnd t"
  by (simp add: terminal_def)

lemma terminal_Cons:
  "terminal t (k # ks) = (case map_of (children t) k of None \<Rightarrow> False | Some n \<Rightarrow> terminal n ks)"
  by (simp add: terminal_def split: option.splits)

lemma terminal_addPath_same: "terminal (addPath ks t) ks"
proof (induction ks arbitrary: t)
  case Nil
  show ?case by (cases t) (simp add: terminal_Nil)
next
  case (Cons k ks)
  obtain e cs where t: "t = TrieNode e cs" by (cases t)
  show ?case
  proof (cases "map_of cs k")
    case None
    with Cons show ?thesis by (simp add: t terminal_Cons map_add_def)
  next
    case (Some n)
    with Cons show ?thesis by (simp add: t terminal_Cons update_conv')
  qed
qed

lemma terminal_addPath_keep: "terminal t ks' \<Longrightarrow> terminal (addPath ks t) ks'"
proof (induction ks arbitrary: t ks')
  case Nil
  then show ?case by (cases t; cases ks') (simp_all add: terminal_Nil terminal_Cons)
next
  case (Cons k ks)
  obtain e cs where t: "t = TrieNode e cs" by (cases t)
  show ?case
  proof (cases ks')
    case Nil
    with Cons.prems show ?thesis
      by (simp add: t terminal_Nil split: option.splits)
  next
    case (Cons k' ks'')
    show ?thesis
    proof (cases "map_of cs k")
      case None
      with Cons.prems Cons show ?thesis
        by (auto simp: t terminal_Cons map_add_def split: option.splits)
    next
      case (Some n)
      with Cons.prems Cons Cons.IH show ?thesis
        by (auto simp: t terminal_Cons update_conv' split: option.splits)
    qed
  qed
qed

lemma terminal_fold_addWord:
  "terminal t ks \<or> ks \<in> code_points ` set ws \<Longrightarrow> terminal (fold addWord ws t) ks"
proof (induction ws arbitrary: t)
  case Nil
  then show ?case by simp
next
  case (Cons w ws)
  have "terminal (addWord w t) ks \<or> ks \<in> code_points ` set ws"
    using Cons.prems terminal_addPath_same terminal_addPath_keep
    by (auto simp: addWord_def)
  then show ?case using Cons.IH by simp
qed

lemma terminal_buildTrie: "w \<in> set ws \<Longrightarrow> terminal (buildTrie ws) (code_points w)"
  unfolding buildTrie_def by (rule terminal_fold_addWord) simp

lemma code_points_pair_free: "pair_free w \<Longrightarrow> code_points w = map (\<lambda>c. [c]) w"
  by (induction w rule: code_points.induct) auto


lemma walk_bounds:
  "m \<in> set (walk tx i node j cur) \<Longrightarrow>
     start m = i \<and> j < end' m \<and> end' m \<le> length tx \<and>
     length (word m) = length cur + (end' m - j)"
proof (induction tx i node j cur rule: walk.induct)
  case (1 tx i node j cur)
  show ?case
  proof (cases "j < length tx")
    case False
    with "1.prems" show ?thesis by (simp add: walk.simps)
  next
    case True
    show ?thesis
    proof (cases "map_of (children node) [tx ! j]")
      case None
      with True "1.prems" show ?thesis by (simp add: walk.simps)
    next
      case (Some n)
      from "1.prems" True Some
      consider "m = \<lparr>word = cur @ [tx ! j], start = i, end' = Suc j\<rparr>"
        | "m \<in> set (walk tx i n (Suc j) (cur @ [tx ! j]))"
        by (subst (asm) walk.simps) (auto split: if_splits)
      then show ?thesis
      proof cases
        case 1
        with True show ?thesis by simp
      next
        case 2
        from "1.IH"[OF True Some 2] show ?thesis by auto
      qed
    qed
  qed
qed

lemma walk_complete:
  "terminal node (map (\<lambda>c. [c]) w) \<Longrightarrow> w \<noteq> [] \<Longrightarrow> j + length w \<le> length tx \<Longrightarrow>
   take (length w) (drop j tx) = w \<Longrightarrow>
   \<lparr>word = cur @ w, start = i, end' = j + length w\<rparr> \<in> set (walk tx i node j cur)"
proof (induction w arbitrary: node j cur)
  case Nil
  then show ?case by simp
next
  case (Cons c w)
  from Cons.prems have j: "j < length tx" by simp
  from j have "drop j tx = tx ! j # drop (Suc j) tx" by (simp add: Cons_nth_drop_Suc)
  with Cons.prems(4) have c: "tx ! j = c" and rest: "take (length w) (drop (Suc j) tx) = w"
    by simp_all
  from Cons.prems obtain n where n: "map_of (children node) [c] = Some n"
    and tn: "terminal n (map (\<lambda>c. [c]) w)"
    by (auto simp: terminal_Cons split: option.splits)
  show ?case
  proof (cases "w = []")
    case True
    with tn have "isEnd n" by (simp add: terminal_Nil)
    with True j c n show ?thesis by (subst walk.simps) simp
  next
    case False
    from Cons.prems have "Suc j + length w \<le> length tx" by simp
    from Cons.IH[OF tn False this rest, of "cur @ [c]"] j c n
    show ?thesis by (subst walk.simps) simp
  qed
qed

lemma check_words_bounds:
  "m \<in> set (check_words root tx) \<Longrightarrow>
     start m < end' m \<and> end' m \<le> length tx \<and> length (word m) = end' m - start m"
proof -
  assume "m \<in> set (check_words root tx)"
  then obtain i where "m \<in> set (walk tx i root i [])" by (auto simp: check_words_def)
  from walk_bounds[OF this] show ?thesis by simp
qed

lemma check_words_complete:
  assumes "terminal root (map (\<lambda>c. [c]) w)" "w \<noteq> []" "occurs_at w p tx"
  shows "\<lparr>word = w, start = p, end' = p + length w\<rparr> \<in> set (check_words root tx)"
proof -
  from assms have "p < length tx" by (cases w) (auto simp: occurs_at_def)
  moreover from assms have
    "\<lparr>word = [] @ w, start = p, end' = p + length w\<rparr> \<in> set (walk tx p root p [])"
    by (intro walk_complete) (auto simp: occurs_at_def)
  ultimately show ?thesis by (auto simp: check_words_def)
qed

lemma nth_mask_span:
  assumes "s \<le> e" "e \<le> length t" "p < length t"
  shows "(take s t @ replicate (e - s) star @ drop e t) ! p = (if s \<le> p \<and> p < e then star else t ! p)"
  using assms by (auto simp: nth_append min_def)

lemma replaceStep_inv:
  assumes "masked_inv tx st" "start m \<le> end' m" "end' m \<le> length tx"
    "length (word m) = end' m - start m"
  shows "masked_inv tx (replaceStep m st) \<and> (start m, end' m) \<in> fst (replaceStep m st) \<and>
         fst st \<subseteq> fst (replaceStep m st)"
proof (cases st)
  case (Pair U t)
  with assms have len: "length t = length tx" by (simp add: masked_inv_def)
  show ?thesis
  proof (cases "(start m, end' m) \<in> U")
    case True
    with Pair assms show ?thesis by (simp add: replaceStep_def)
  next
    case False
    let ?t' = "take (start m) t @ replicate (end' m - start m) star @ drop (end' m) t"
    have st': "replaceStep m st = (insert (start m, end' m) U, ?t')"
      using False Pair assms(4) by (simp add: replaceStep_def substring_def substring_from_def)
    have nth: "\<And>p. p < length tx \<Longrightarrow>
        ?t' ! p = (if start m \<le> p \<and> p < end' m then star else t ! p)"
      using nth_mask_span[of "start m" "end' m" t] assms(2,3) len by simp
    have l': "length ?t' = length tx" using assms(2,3) len by simp
    have "masked_inv tx (insert (start m, end' m) U, ?t')"
      unfolding masked_inv_def
      using assms(1) Pair l' nth by (auto simp: masked_inv_def)
    with st' Pair show ?thesis by auto
  qed
qed

lemma fold_replaceStep_inv:
  assumes "\<forall>m \<in> set ms. start m \<le> end' m \<and> end' m \<le> length tx \<and>
             length (word m) = end' m - start m"
    and "masked_inv tx st"
  shows "masked_inv tx (fold replaceStep ms st) \<and>
         (\<lambda>m. (start m, end' m)) ` set ms \<subseteq> fst (fold replaceStep ms st) \<and>
         fst st \<subseteq> fst (fold replaceStep ms st)"
  using assms
proof (induction ms arbitrary: st)
  case Nil
  then show ?case by simp
next
  case (Cons m ms)
  from replaceStep_inv[of tx st m] Cons.prems
  have step: "masked_inv tx (replaceStep m st)" "(start m, end' m) \<in> fst (replaceStep m st)"
    "fst st \<subseteq> fst (replaceStep m st)" by auto
  from Cons.IH[OF _ step(1)] Cons.prems(1)
  have "masked_inv tx (fold replaceStep ms (replaceStep m st))"
    "(\<lambda>m. (start m, end' m)) ` set ms \<subseteq> fst (fold replaceStep ms (replaceStep m st))"
    "fst (replaceStep m st) \<subseteq> fst (fold replaceStep ms (replaceStep m st))" by auto
  with step show ?case by auto
qed

lemma filterState_inv:
  "masked_inv tx (filterState root tx) \<and>
   (\<lambda>m. (start m, end' m)) ` set (check_words root tx) \<subseteq> fst (filterState root tx)"
proof (cases "hasSensitive root tx")
  case False
  then show ?thesis by (simp add: filterState_def hasSensitive_def masked_inv_def)
next
  case True
  have init: "masked_inv tx ({}, tx)" by (simp add: masked_inv_def)
  have b: "\<forall>m \<in> set (sortedWords (check_words root tx)).
      start m \<le> end' m \<and> end' m \<le> length tx \<and> length (word m) = end' m - start m"
    using check_words_bounds[of _ root tx] by (fastforce simp: sortedWords_def)
  from fold_replaceStep_inv[OF b init] True show ?thesis
    by (simp add: filterState_def sortedWords_def)
qed

lemma length_filter_text: "length (filter_text root tx) = length tx"
  using filterState_inv[of tx root] by (simp add: masked_inv_def filter_text_def)

lemma filter_text_unmasked:
  "p < length tx \<Longrightarrow> filter_text root tx ! p \<noteq> star \<Longrightarrow> filter_text root tx ! p = tx ! p"
  using filterState_inv[of tx root] by (simp add: masked_inv_def filter_text_def)

lemma match_replaced:
  "m \<in> set (check_words root tx) \<Longrightarrow> (start m, end' m) \<in> replacedSpans root tx"
  using filterState_inv[of tx root] by (auto simp: replacedSpans_def)

lemma replaced_masked:
  "(s, e) \<in> replacedSpans root tx \<Longrightarrow> s \<le> p \<Longrightarrow> p < e \<Longrightarrow> p < length tx \<Longrightarrow>
   filter_text root tx ! p = star"
  using filterState_inv[of tx root]
  by (auto simp: masked_inv_def filter_text_def replacedSpans_def)

lemma occurrence_masked:
  assumes "terminal root (map (\<lambda>c. [c]) w)" "w \<noteq> []" "occurs_at w p tx"
    "p \<le> q" "q < p + length w"
  shows "filter_text root tx ! q = star"
proof -
  from check_words_complete[OF assms(1-3)] match_replaced
  have "(p, p + length w) \<in> replacedSpans root tx" by fastforce
  moreover from assms have "q < length tx" by (simp add: occurs_at_def)
  ultimately show ?thesis using assms(4,5) by (intro replaced_masked[of p "p + length w"]) auto
qed

lemma occurs_at_nth:
  assumes "occurs_at w p t" "i < length w"
  shows "t ! (p + i) = w ! i"
proof -
  from assms(1) have eq: "take (length w) (drop p t) = w" and b: "p + length w \<le> length t"
    by (simp_all add: occurs_at_def)
  have "take (length w) (drop p t) ! i = t ! (p + i)" using assms(2) b by simp
  then show ?thesis by (simp only: eq)
qed

lemma occurs_atI:
  assumes "p + length w \<le> length t" "\<And>i. i < length w \<Longrightarrow> t ! (p + i) = w ! i"
  shows "occurs_at w p t"
proof -
  have "take (length w) (drop p t) = w"
  proof (rule nth_equalityI)
    show "length (take (length w) (drop p t)) = length w" using assms(1) by simp
  next
    fix i assume "i < length (take (length w) (drop p t))"
    then have "i < length w" by simp
    with assms show "take (length w) (drop p t) ! i = w ! i" by simp
  qed
  with assms(1) show ?thesis by (simp add: occurs_at_def)
qed

lemma contains_iff: "contains t w \<longleftrightarrow> (\<exists>p. occurs_at w p t)"
proof
  assume "contains t w"
  then show "\<exists>p. occurs_at w p t" unfolding contains_def by blast
next
  assume "\<exists>p. occurs_at w p t"
  then obtain p where p: "occurs_at w p t" ..
  then have "p < Suc (length t)" by (simp add: occurs_at_def)
  then have "p \<in> set [0 ..< Suc (length t)]" by (simp only: set_upt atLeastLessThan_iff) simp
  with p show "contains t w" unfolding contains_def by blast
qed

lemma no_word_in_output:
  assumes "terminal root (map (\<lambda>c. [c]) w)" "w \<noteq> []" "star \<notin> set w"
  shows "\<not> contains (filter_text root tx) w"
proof
  assume "contains (filter_text root tx) w"
  then obtain p where occ: "occurs_at w p (filter_text root tx)" by (auto simp: contains_iff)
  then have bound: "p + length w \<le> length tx"
    by (simp add: occurs_at_def length_filter_text)
  have same: "tx ! (p + i) = w ! i" if "i < length w" for i
  proof -
    from occ that have eq: "filter_text root tx ! (p + i) = w ! i" by (rule occurs_at_nth)
    with that assms(3) have "filter_text root tx ! (p + i) \<noteq> star" by (metis nth_mem)
    with filter_text_unmasked[of "p + i" tx root] bound that eq show ?thesis by simp
  qed
  from bound same have "occurs_at w p tx" by (rule occurs_atI)
  from occurrence_masked[OF assms(1,2) this, of p] assms(2)
  have "filter_text root tx ! p = star" by simp
  moreover from occurs_at_nth[OF occ, of 0] assms(2) have "filter_text root tx ! p = w ! 0" by simp
  moreover from assms(2,3) have "w ! 0 \<noteq> star" by (metis length_greater_0_conv nth_mem)
  ultimately show False by simp
qed

section \<open>Counters with a time-to-live\<close>

lemma js_Cons: "js (c # cs) = of_nat (of_char c) # js cs"
  by (simp add: js_def)

lemma js_Nil: "js [] = []"
  by (simp add: js_def)

lemma userKey_neq_roomKey: "fullKey (userKey u) \<noteq> fullKey (roomKey r)"
  by (simp add: fullKey_def userKey_def roomKey_def js_Cons js_Nil)

lemma duplicateKey_neq_userKey: "fullKey (duplicateKey u h) \<noteq> fullKey (userKey u')"
  by (simp add: fullKey_def userKey_def duplicateKey_def js_Cons js_Nil)

lemma duplicateKey_neq_roomKey: "fullKey (duplicateKey u h) \<noteq> fullKey (roomKey r)"
  by (simp add: fullKey_def roomKey_def duplicateKey_def js_Cons js_Nil)

lemma duplicateKey_inj_user: "fullKey (duplicateKey u h) = fullKey (duplicateKey u' h) \<longleftrightarrow> u = u'"
  by (simp add: fullKey_def duplicateKey_def)

lemma incrWithExpire_None:
  "incrWithExpire now None key secs = (\<lparr>counterValue = 1, hasRedis = False\<rparr>, None)"
  by (simp add: incrWithExpire_def)

lemma incrWithExpire_incrFails:
  "incrFails c \<Longrightarrow> incrWithExpire now (Some c) key secs = (\<lparr>counterValue = 1, hasRedis = False\<rparr>, Some c)"
  by (simp add: incrWithExpire_def incr_def)

lemma incrWithExpire_healthy:
  assumes "\<not> incrFails c" "\<not> expireFails c"
  shows "incrWithExpire now (Some c) key secs =
           (\<lparr>counterValue = nextCount now c (fullKey key), hasRedis = True\<rparr>,
            Some (touch now c (fullKey key) secs))"
  using assms
  by (cases "lookup now c (fullKey key)")
     (auto simp: incrWithExpire_def incr_def expire_def nextCount_def touch_def lookup_def live_def
           Let_def split: option.splits if_splits)

lemma touch_flags [simp]:
  "incrFails (touch now c k secs) = incrFails c"
  "expireFails (touch now c k secs) = expireFails c"
  by (simp_all add: touch_def Let_def)

lemma entries_touch_other [simp]:
  "k' \<noteq> k \<Longrightarrow> entries (touch now c k secs) k' = entries c k'"
  by (simp add: touch_def Let_def)

lemma lookup_touch_other [simp]:
  "k' \<noteq> k \<Longrightarrow> lookup t (touch now c k secs) k' = lookup t c k'"
  by (simp add: lookup_def)

lemma nextCount_touch_other [simp]:
  "k' \<noteq> k \<Longrightarrow> nextCount t (touch now c k secs) k' = nextCount t c k'"
  by (simp add: nextCount_def)

lemma lookup_touch_fresh:
  "lookup now c k = None \<Longrightarrow>
   lookup t (touch now c k secs) k =
     (if t < now + secs * 1000 then Some \<lparr>count = 1, expiry = Some (now + secs * 1000)\<rparr> else None)"
  by (simp add: touch_def lookup_def live_def)

lemma lookup_touch_again:
  "lookup now c k = Some e \<Longrightarrow> count e \<noteq> 0 \<Longrightarrow>
   lookup t (touch now c k secs) k = (if live t e then Some (e\<lparr>count := Suc (count e)\<rparr>) else None)"
  by (simp add: touch_def lookup_def live_def split: option.splits)

lemma served_touch:
  "incrKeys (Some (touch now c k secs)) = incrKeys (Some c) @ [k]"
  by (simp add: touch_def Let_def incrKeys_def)


lemma bounded_touch_same: "bounded c k n \<Longrightarrow> bounded (touch now c k secs) k (Suc n)"
  by (auto simp: bounded_def touch_def lookup_def Let_def split: option.splits)

lemma bounded_touch_other: "k' \<noteq> k \<Longrightarrow> bounded (touch now c k' secs) k n = bounded c k n"
  by (simp add: bounded_def)

lemma nextCount_bounded: "bounded c k n \<Longrightarrow> nextCount t c k \<le> Suc n"
  by (auto simp: bounded_def nextCount_def lookup_def split: option.splits)

lemma checkRateLimit_healthy:
  assumes "\<not> incrFails c" "\<not> expireFails c"
  shows "checkRateLimit cfg now (Some c) u r =
    (let uk = fullKey (userKey u); rk = fullKey (roomKey r);
         c1 = touch now c uk (timeWindow (userRateLimit cfg));
         c2 = touch now c1 rk (timeWindow (roomRateLimit cfg))
     in if nextCount now c uk > messagesPerSecond (userRateLimit cfg)
        then (\<lparr>allowed = False,
               reason = SendTooFrequent (messagesPerSecond (userRateLimit cfg)),
               limit = Some (messagesPerSecond (userRateLimit cfg)),
               current = Some (nextCount now c uk)\<rparr>, Some c1)
        else if nextCount now c rk > messagesPerSecond (roomRateLimit cfg)
        then (\<lparr>allowed = False, reason = RoomTooBusy,
               limit = Some (messagesPerSecond (roomRateLimit cfg)),
               current = Some (nextCount now c rk)\<rparr>, Some c2)
        else (\<lparr>allowed = True, reason = RateLimitPassed, limit = None, current = None\<rparr>, Some c2))"
proof -
  have neq: "fullKey (roomKey r) \<noteq> fullKey (userKey u)"
    using userKey_neq_roomKey[of u r] by simp
  show ?thesis
    using assms neq
    by (simp add: checkRateLimit_def incrWithExpire_healthy Let_def)
qed

text \<open>
  Claim C4. With the default sender limit of 2 messages in a window of 1 second, three
  rate-limit checks for one sender inside one window are allowed, allowed and denied (the
  third with count 3 against limit 2); a check made once the window has elapsed is allowed
  again and leaves the sender's counter at 1 with a fresh time-to-live. The store is
  reachable, the sender has no live counter at the first call, and the room's counter
  stays below its own limit of 1000.
\<close>

theorem rate_limit_window:
  assumes healthy: "\<not> incrFails c" "\<not> expireFails c"
    and fresh: "lookup t1 c (fullKey (userKey u)) = None"
    and room: "bounded c (fullKey (roomKey r)) 997"
    and times: "t1 \<le> t2" "t2 \<le> t3" "t3 < t1 + 1000" "t1 + 1000 \<le> t4"
    and run: "checkRateLimit defaultConfig t1 (Some c) u r = (r1, s1)"
      "checkRateLimit defaultConfig t2 s1 u r = (r2, s2)"
      "checkRateLimit defaultConfig t3 s2 u r = (r3, s3)"
      "checkRateLimit defaultConfig t4 s3 u r = (r4, s4)"
  shows "allowed r1 \<and> allowed r2 \<and>
         \<not> allowed r3 \<and> limit r3 = Some 2 \<and> current r3 = Some 3 \<and>
         allowed r4 \<and>
         (\<exists>c4. s4 = Some c4 \<and>
            lookup t4 c4 (fullKey (userKey u)) = Some \<lparr>count = 1, expiry = Some (t4 + 1000)\<rparr>)"
proof -
  let ?uk = "fullKey (userKey u)" and ?rk = "fullKey (roomKey r)"
  have neq: "?rk \<noteq> ?uk" "?uk \<noteq> ?rk" using userKey_neq_roomKey[of u r] by auto
  have cfg: "messagesPerSecond (userRateLimit defaultConfig) = 2"
    "timeWindow (userRateLimit defaultConfig) = 1"
    "messagesPerSecond (roomRateLimit defaultConfig) = 1000"
    "timeWindow (roomRateLimit defaultConfig) = 1"
    by (simp_all add: defaultConfig_def)
  \<comment> \<open>first call\<close>
  define a1 where "a1 = touch t1 c ?uk 1"
  define c1 where "c1 = touch t1 a1 ?rk 1"
  have n1: "nextCount t1 c ?uk = 1" using fresh by (simp add: nextCount_def)
  have b0: "nextCount t1 c ?rk \<le> 998" using nextCount_bounded[OF room, of t1] by simp
  have call1: "r1 = \<lparr>allowed = True, reason = RateLimitPassed, limit = None, current = None\<rparr>"
    "s1 = Some c1"
    using run(1) n1 b0 healthy
    by (auto simp: checkRateLimit_healthy Let_def cfg a1_def c1_def)
  have h1: "\<not> incrFails c1" "\<not> expireFails c1" using healthy by (simp_all add: c1_def a1_def)
  have u1: "lookup t c1 ?uk = (if t < t1 + 1000 then Some \<lparr>count = 1, expiry = Some (t1 + 1000)\<rparr> else None)" for t
    using lookup_touch_fresh[OF fresh, of t 1] neq by (simp add: c1_def a1_def)
  have rb1: "bounded c1 ?rk 998"
    using bounded_touch_same[of a1 ?rk 997 t1 1] room neq
    by (simp add: c1_def a1_def bounded_touch_other)
  \<comment> \<open>second call\<close>
  define a2 where "a2 = touch t2 c1 ?uk 1"
  define c2 where "c2 = touch t2 a2 ?rk 1"
  have l2: "lookup t2 c1 ?uk = Some \<lparr>count = 1, expiry = Some (t1 + 1000)\<rparr>"
    using u1[of t2] times by simp
  have n2: "nextCount t2 c1 ?uk = 2" using l2 by (simp add: nextCount_def)
  have b1: "nextCount t2 c1 ?rk \<le> 999" using nextCount_bounded[OF rb1, of t2] by simp
  have call2: "r2 = \<lparr>allowed = True, reason = RateLimitPassed, limit = None, current = None\<rparr>"
    "s2 = Some c2"
    using run(2) n2 b1 h1 call1(2)
    by (auto simp: checkRateLimit_healthy Let_def cfg a2_def c2_def)
  have h2: "\<not> incrFails c2" "\<not> expireFails c2" using h1 by (simp_all add: c2_def a2_def)
  have u2: "lookup t c2 ?uk = (if t < t1 + 1000 then Some \<lparr>count = 2, expiry = Some (t1 + 1000)\<rparr> else None)" for t
    using lookup_touch_again[OF l2, of t 1] neq by (simp add: c2_def a2_def live_def)
  have rb2: "bounded c2 ?rk 999"
    using bounded_touch_same[of a2 ?rk 998 t2 1] rb1 neq
    by (simp add: c2_def a2_def bounded_touch_other)
  \<comment> \<open>third call\<close>
  define c3 where "c3 = touch t3 c2 ?uk 1"
  have l3: "lookup t3 c2 ?uk = Some \<lparr>count = 2, expiry = Some (t1 + 1000)\<rparr>"
    using u2[of t3] times by simp
  have n3: "nextCount t3 c2 ?uk = 3" using l3 by (simp add: nextCount_def)
  have call3: "r3 = \<lparr>allowed = False, reason = SendTooFrequent 2, limit = Some 2, current = Some 3\<rparr>"
    "s3 = Some c3"
    using run(3) n3 h2 call2(2)
    by (auto simp: checkRateLimit_healthy Let_def cfg c3_def)
  have h3: "\<not> incrFails c3" "\<not> expireFails c3" using h2 by (simp_all add: c3_def)
  have u3: "lookup t c3 ?uk = (if t < t1 + 1000 then Some \<lparr>count = 3, expiry = Some (t1 + 1000)\<rparr> else None)" for t
    using lookup_touch_again[OF l3, of t 1] by (simp add: c3_def live_def)
  have rb3: "bounded c3 ?rk 999" using rb2 neq by (simp add: c3_def bounded_touch_other)
  \<comment> \<open>fourth call, after the window\<close>
  define a4 where "a4 = touch t4 c3 ?uk 1"
  define c4 where "c4 = touch t4 a4 ?rk 1"
  have l4: "lookup t4 c3 ?uk = None" using u3[of t4] times by simp
  have n4: "nextCount t4 c3 ?uk = 1" using l4 by (simp add: nextCount_def)
  have b3: "nextCount t4 c3 ?rk \<le> 1000" using nextCount_bounded[OF rb3, of t4] by simp
  have call4: "r4 = \<lparr>allowed = True, reason = RateLimitPassed, limit = None, current = None\<rparr>"
    "s4 = Some c4"
    using run(4) n4 b3 h3 call3(2)
    by (auto simp: checkRateLimit_healthy Let_def cfg a4_def c4_def)
  have u4: "lookup t4 c4 ?uk = Some \<lparr>count = 1, expiry = Some (t4 + 1000)\<rparr>"
    using lookup_touch_fresh[OF l4, of t4 1] neq by (simp add: c4_def a4_def)
  show ?thesis using call1 call2 call3 call4 u4 by simp
qed


text \<open>The scenario of claim C4 for sender alice in room lobby, at 0, 300, 600 and 1000 ms.\<close>

theorem rate_limit_window_witness:
  "allowed (fst (checkRateLimit defaultConfig 0 (Some emptyRedis) (js ''alice'') (js ''lobby''))) \<and>
   \<not> allowed (fst (checkRateLimit defaultConfig 600
       (snd (checkRateLimit defaultConfig 300
         (snd (checkRateLimit defaultConfig 0 (Some emptyRedis) (js ''alice'') (js ''lobby'')))
         (js ''alice'') (js ''lobby'')))
       (js ''alice'') (js ''lobby''))) \<and>
   allowed (fst (checkRateLimit defaultConfig 1000
     (snd (checkRateLimit defaultConfig 600
       (snd (checkRateLimit defaultConfig 300
         (snd (checkRateLimit defaultConfig 0 (Some emptyRedis) (js ''alice'') (js ''lobby'')))
         (js ''alice'') (js ''lobby'')))
       (js ''alice'') (js ''lobby'')))
     (js ''alice'') (js ''lobby'')))"
proof -
  let ?u = "js ''alice''" and ?r = "js ''lobby''"
  let ?x1 = "checkRateLimit defaultConfig 0 (Some emptyRedis) ?u ?r"
  let ?x2 = "checkRateLimit defaultConfig 300 (snd ?x1) ?u ?r"
  let ?x3 = "checkRateLimit defaultConfig 600 (snd ?x2) ?u ?r"
  let ?x4 = "checkRateLimit defaultConfig 1000 (snd ?x3) ?u ?r"
  have h: "\<not> incrFails emptyRedis" "\<not> expireFails emptyRedis"
    "lookup 0 emptyRedis (fullKey (userKey ?u)) = None"
    "bounded emptyRedis (fullKey (roomKey ?r)) 997"
    by (simp_all add: emptyRedis_def lookup_def bounded_def)
  have t: "(0::nat) \<le> 300" "(300::nat) \<le> 600" "(600::nat) < 0 + 1000" "(0::nat) + 1000 \<le> 1000"
    by simp_all
  from rate_limit_window[OF h t, of "fst ?x1" "snd ?x1" "fst ?x2" "snd ?x2" "fst ?x3" "snd ?x3"
      "fst ?x4" "snd ?x4"]
  show ?thesis by simp
qed

lemma checkDuplicateMessage_JStr [simp]:
  "checkDuplicateMessage cfg now rc u (JStr s) =
     countDuplicate cfg now rc (duplicateKey u (hashString s))"
  by (simp add: checkDuplicateMessage_def split: prod.splits)

lemma countDuplicate_healthy:
  assumes "\<not> incrFails c" "\<not> expireFails c"
  shows "countDuplicate cfg now (Some c) key =
    (if nextCount now c (fullKey key) > maxDuplicateCount cfg
     then \<lparr>allowed = False, reason = TooManyDuplicates,
            currentCount = Some (nextCount now c (fullKey key)),
            maxCount = Some (maxDuplicateCount cfg)\<rparr>
     else \<lparr>allowed = True, reason = DuplicatePassed, currentCount = None, maxCount = None\<rparr>,
     Some (touch now c (fullKey key) (duplicateTimeWindow cfg)))"
  using assms by (simp add: countDuplicate_def incrWithExpire_healthy)

text \<open>
  Claim C5. With at most 3 repeats in a window of 10 seconds, four duplicate checks of the
  same content by one sender inside the window are allowed three times and denied the
  fourth time (count 4 against 3); the same content from another sender is counted under a
  different key and is allowed, whenever that sender's own counter is below the maximum.
\<close>

theorem duplicate_window:
  assumes healthy: "\<not> incrFails c" "\<not> expireFails c"
    and fresh: "lookup t1 c (fullKey (duplicateKey u (hashString s))) = None"
    and other: "u' \<noteq> u" "bounded c (fullKey (duplicateKey u' (hashString s))) 2"
    and times: "t1 \<le> t2" "t2 \<le> t3" "t3 \<le> t4" "t4 < t1 + 10000"
    and run: "checkDuplicateMessage defaultConfig t1 (Some c) u (JStr s) = (r1, s1)"
      "checkDuplicateMessage defaultConfig t2 s1 u (JStr s) = (r2, s2)"
      "checkDuplicateMessage defaultConfig t3 s2 u (JStr s) = (r3, s3)"
      "checkDuplicateMessage defaultConfig t4 s3 u (JStr s) = (r4, s4)"
      "checkDuplicateMessage defaultConfig t5 s4 u' (JStr s) = (r5, s5)"
  shows "allowed r1 \<and> allowed r2 \<and> allowed r3 \<and>
         \<not> allowed r4 \<and> currentCount r4 = Some 4 \<and> maxCount r4 = Some 3 \<and>
         fullKey (duplicateKey u' (hashString s)) \<noteq> fullKey (duplicateKey u (hashString s)) \<and>
         allowed r5"
proof -
  let ?k = "fullKey (duplicateKey u (hashString s))"
  let ?k' = "fullKey (duplicateKey u' (hashString s))"
  have neq: "?k' \<noteq> ?k" using other(1) by (simp add: duplicateKey_inj_user)
  have cfg: "maxDuplicateCount defaultConfig = 3" "duplicateTimeWindow defaultConfig = 10"
    by (simp_all add: defaultConfig_def)
  define c1 where "c1 = touch t1 c ?k 10"
  define c2 where "c2 = touch t2 c1 ?k 10"
  define c3 where "c3 = touch t3 c2 ?k 10"
  define c4 where "c4 = touch t4 c3 ?k 10"
  have n1: "nextCount t1 c ?k = 1" using fresh by (simp add: nextCount_def)
  have call1: "allowed r1" "s1 = Some c1"
    using run(1) n1 healthy by (auto simp: countDuplicate_healthy cfg c1_def)
  have h1: "\<not> incrFails c1" "\<not> expireFails c1" using healthy by (simp_all add: c1_def)
  have l2: "lookup t2 c1 ?k = Some \<lparr>count = 1, expiry = Some (t1 + 10000)\<rparr>"
    using lookup_touch_fresh[OF fresh, of t2 10] times by (simp add: c1_def)
  have call2: "allowed r2" "s2 = Some c2"
    using run(2) l2 h1 call1(2)
    by (auto simp: countDuplicate_healthy cfg c2_def nextCount_def)
  have h2: "\<not> incrFails c2" "\<not> expireFails c2" using h1 by (simp_all add: c2_def)
  have l3: "lookup t3 c2 ?k = Some \<lparr>count = 2, expiry = Some (t1 + 10000)\<rparr>"
    using lookup_touch_again[OF l2, of t3 10] times by (simp add: c2_def live_def)
  have call3: "allowed r3" "s3 = Some c3"
    using run(3) l3 h2 call2(2)
    by (auto simp: countDuplicate_healthy cfg c3_def nextCount_def)
  have h3: "\<not> incrFails c3" "\<not> expireFails c3" using h2 by (simp_all add: c3_def)
  have l4: "lookup t4 c3 ?k = Some \<lparr>count = 3, expiry = Some (t1 + 10000)\<rparr>"
    using lookup_touch_again[OF l3, of t4 10] times by (simp add: c3_def live_def)
  have call4: "\<not> allowed r4" "currentCount r4 = Some 4" "maxCount r4 = Some 3" "s4 = Some c4"
    using run(4) l4 h3 call3(2)
    by (auto simp: countDuplicate_healthy cfg c4_def nextCount_def)
  have h4: "\<not> incrFails c4" "\<not> expireFails c4" using h3 by (simp_all add: c4_def)
  have "bounded c4 ?k' 2"
    using other(2) neq by (simp add: c4_def c3_def c2_def c1_def bounded_touch_other)
  from nextCount_bounded[OF this, of t5] have "nextCount t5 c4 ?k' \<le> 3" by simp
  then have call5: "allowed r5"
    using run(5) h4 call4(4) by (auto simp: countDuplicate_healthy cfg)
  show ?thesis using call1 call2 call3 call4 call5 neq by simp
qed

text \<open>The scenario of claim C5: alice sends the same text four times, then bob sends it once.\<close>

theorem duplicate_window_witness:
  "\<not> allowed (fst (checkDuplicateMessage defaultConfig 3000
       (snd (checkDuplicateMessage defaultConfig 2000
         (snd (checkDuplicateMessage defaultConfig 1000
           (snd (checkDuplicateMessage defaultConfig 0 (Some emptyRedis) (js ''alice'') (JStr (js ''hi''))))
           (js ''alice'') (JStr (js ''hi''))))
         (js ''alice'') (JStr (js ''hi''))))
       (js ''alice'') (JStr (js ''hi'')))) \<and>
   allowed (fst (checkDuplicateMessage defaultConfig 3500
     (snd (checkDuplicateMessage defaultConfig 3000
       (snd (checkDuplicateMessage defaultConfig 2000
         (snd (checkDuplicateMessage defaultConfig 1000
           (snd (checkDuplicateMessage defaultConfig 0 (Some emptyRedis) (js ''alice'') (JStr (js ''hi''))))
           (js ''alice'') (JStr (js ''hi''))))
         (js ''alice'') (JStr (js ''hi''))))
       (js ''alice'') (JStr (js ''hi''))))
     (js ''bob'') (JStr (js ''hi''))))"
proof -
  let ?a = "js ''alice''" and ?b = "js ''bob''" and ?m = "JStr (js ''hi'')"
  let ?x1 = "checkDuplicateMessage defaultConfig 0 (Some emptyRedis) ?a ?m"
  let ?x2 = "checkDuplicateMessage defaultConfig 1000 (snd ?x1) ?a ?m"
  let ?x3 = "checkDuplicateMessage defaultConfig 2000 (snd ?x2) ?a ?m"
  let ?x4 = "checkDuplicateMessage defaultConfig 3000 (snd ?x3) ?a ?m"
  let ?x5 = "checkDuplicateMessage defaultConfig 3500 (snd ?x4) ?b ?m"
  have h: "\<not> incrFails emptyRedis" "\<not> expireFails emptyRedis"
    "lookup 0 emptyRedis (fullKey (duplicateKey ?a (hashString (js ''hi'')))) = None"
    by (simp_all add: emptyRedis_def lookup_def)
  have o: "?b \<noteq> ?a" "bounded emptyRedis (fullKey (duplicateKey ?b (hashString (js ''hi'')))) 2"
    by (simp_all add: emptyRedis_def bounded_def js_def)
  have t: "(0::nat) \<le> 1000" "(1000::nat) \<le> 2000" "(2000::nat) \<le> 3000" "(3000::nat) < 0 + 10000"
    by simp_all
  from duplicate_window[OF h o t, of "fst ?x1" "snd ?x1" "fst ?x2" "snd ?x2" "fst ?x3" "snd ?x3"
      "fst ?x4" "snd ?x4" 3500 "fst ?x5" "snd ?x5"]
  show ?thesis by simp
qed

text \<open>
  Claim C6. When the counter store is unavailable, either never connected or failing on
  the increment, the rate-limit check and the duplicate check both allow the message, for
  every sender, room, content, configuration and time, and leave the store as it was.
\<close>

theorem checks_fail_open:
  assumes "rc = None \<or> (\<exists>c. rc = Some c \<and> incrFails c)"
  shows "allowed (fst (checkRateLimit cfg now rc uid rid)) \<and>
         snd (checkRateLimit cfg now rc uid rid) = rc \<and>
         allowed (fst (checkDuplicateMessage cfg now rc uid v)) \<and>
         snd (checkDuplicateMessage cfg now rc uid v) = rc"
proof -
  have inc: "incrWithExpire now rc key secs = (\<lparr>counterValue = 1, hasRedis = False\<rparr>, rc)"
    for key secs
    using assms by (auto simp: incrWithExpire_None incrWithExpire_incrFails)
  have "allowed (fst (checkRateLimit cfg now rc uid rid)) \<and>
        snd (checkRateLimit cfg now rc uid rid) = rc"
    by (simp add: checkRateLimit_def inc)
  moreover have "allowed (fst (checkDuplicateMessage cfg now rc uid v)) \<and>
        snd (checkDuplicateMessage cfg now rc uid v) = rc"
    by (simp add: checkDuplicateMessage_def countDuplicate_def inc failOpen_def
        split: option.splits)
  ultimately show ?thesis by simp
qed

text \<open>Claim C6 at a store whose connection is down, and with no client at all.\<close>

theorem checks_fail_open_witness:
  "allowed (fst (checkRateLimit defaultConfig 0 (Some downRedis) (js ''alice'') (js ''lobby''))) \<and>
   allowed (fst (checkDuplicateMessage defaultConfig 0 (Some downRedis) (js ''alice'') (JStr (js ''hi'')))) \<and>
   allowed (fst (checkRateLimit defaultConfig 0 None (js ''alice'') (js ''lobby''))) \<and>
   allowed (fst (checkDuplicateMessage defaultConfig 0 None (js ''alice'') (JStr (js ''hi''))))"
proof -
  have "Some downRedis = None \<or> (\<exists>c. Some downRedis = Some c \<and> incrFails c)"
    by (simp add: downRedis_def)
  from checks_fail_open[OF this, of defaultConfig 0 "js ''alice''" "js ''lobby''" "JStr (js ''hi'')"]
    checks_fail_open[of None defaultConfig 0 "js ''alice''" "js ''lobby''" "JStr (js ''hi'')"]
  show ?thesis by blast
qed

section \<open>Masking\<close>

lemma terminal_word:
  assumes "w \<in> set ws" "pair_free w"
  shows "terminal (buildTrie ws) (map (\<lambda>c. [c]) w)"
  using terminal_buildTrie[OF assms(1)] code_points_pair_free[OF assms(2)] by simp

text \<open>
  Claim C3, amended. For a trie built from any list of words, and for every configured
  word that is not empty, holds no mask character and holds no surrogate pair, the output
  of \<open>filter\<close> on any text does not contain that word as a contiguous substring.
\<close>

theorem mask_removes_words:
  assumes "w \<in> set ws" "w \<noteq> []" "star \<notin> set w" "pair_free w"
  shows "\<not> contains (filter_text (buildTrie ws) tx) w"
  using no_word_in_output[OF terminal_word[OF assms(1,4)] assms(2,3)] .

text \<open>Claim C3, amended, for the words ab and abcd and the text xabcdy.\<close>

theorem mask_removes_words_witness:
  "\<not> contains (filter_text (buildTrie [js ''ab'', js ''abcd'']) (js ''xabcdy'')) (js ''abcd'')"
proof -
  have "js ''abcd'' \<in> set [js ''ab'', js ''abcd'']" "js ''abcd'' \<noteq> []"
    "star \<notin> set (js ''abcd'')" "pair_free (js ''abcd'')"
    by (simp_all add: js_def star_def is_high_def is_low_def)
  from mask_removes_words[OF this] show ?thesis .
qed

text \<open>
  Claim C3 as first stated fails in two places. A word made of one supplementary-plane
  character (here U+1F600, the units D83D DE00) is stored by \<open>addWord\<close> under one
  two-unit key, which \<open>check\<close> never looks up because it reads the text unit by unit:
  the text that is this word comes back unmasked. And the empty word is a substring of
  every output.
\<close>

theorem mask_keeps_some_words:
  "star \<notin> set [55357, 56832 :: code_unit] \<and>
   contains [55357, 56832 :: code_unit] [55357, 56832] \<and>
   contains (filter_text (buildTrie [[55357, 56832]]) [55357, 56832]) [55357, 56832] \<and>
   star \<notin> set ([] :: jsstring) \<and>
   contains (js ''a'') [] \<and>
   contains (filter_text (buildTrie [[]]) (js ''a'')) []"
  by code_simp

lemma occurs_at_prefix: "occurs_at (w1 @ r) p tx \<Longrightarrow> occurs_at w1 p tx"
proof -
  assume a: "occurs_at (w1 @ r) p tx"
  show ?thesis
  proof (rule occurs_atI)
    from a show "p + length w1 \<le> length tx" by (simp add: occurs_at_def)
  next
    fix i assume "i < length w1"
    with occurs_at_nth[OF a, of i] show "tx ! (p + i) = w1 ! i" by (simp add: nth_append)
  qed
qed

text \<open>
  Claim C8, amended. When a configured word and a proper extension of it are both
  configured (neither with a surrogate pair, the shorter one not empty), masking a text
  with an occurrence of the longer word keeps the length of the text and puts a run of
  mask characters of the longer word's length over that occurrence. The loop replaces
  both the longer span and the shorter span that starts at the same place: its set of
  position keys only stops a span with the same start and the same end from being
  replaced again, so the second replacement rewrites positions that are masked already.
\<close>

theorem prefix_pair_masked:
  assumes "w1 \<in> set ws" "w1 @ r \<in> set ws" "w1 \<noteq> []" "r \<noteq> []"
    "pair_free w1" "pair_free (w1 @ r)" "occurs_at (w1 @ r) p tx"
  shows "length (filter_text (buildTrie ws) tx) = length tx \<and>
         substring (filter_text (buildTrie ws) tx) p (p + length (w1 @ r)) =
           replicate (length (w1 @ r)) star \<and>
         (p, p + length (w1 @ r)) \<in> replacedSpans (buildTrie ws) tx \<and>
         (p, p + length w1) \<in> replacedSpans (buildTrie ws) tx"
proof -
  let ?t = "buildTrie ws" and ?w2 = "w1 @ r"
  have t1: "terminal ?t (map (\<lambda>c. [c]) w1)" using assms(1,5) by (rule terminal_word)
  have t2: "terminal ?t (map (\<lambda>c. [c]) ?w2)" using assms(2,6) by (rule terminal_word)
  have o1: "occurs_at w1 p tx" using assms(7) by (rule occurs_at_prefix)
  have ne2: "?w2 \<noteq> []" using assms(3) by simp
  have s2: "(p, p + length ?w2) \<in> replacedSpans ?t tx"
    using match_replaced[OF check_words_complete[OF t2 ne2 assms(7)]] by simp
  have s1: "(p, p + length w1) \<in> replacedSpans ?t tx"
    using match_replaced[OF check_words_complete[OF t1 assms(3) o1]] by simp
  have bound: "p + length ?w2 \<le> length tx" using assms(7) by (simp add: occurs_at_def)
  have "substring (filter_text ?t tx) p (p + length ?w2) = replicate (length ?w2) star"
  proof (rule nth_equalityI)
    show "length (substring (filter_text ?t tx) p (p + length ?w2)) = length (replicate (length ?w2) star)"
      using bound by (simp add: substring_def length_filter_text)
  next
    fix i assume "i < length (substring (filter_text ?t tx) p (p + length ?w2))"
    then have i: "i < length ?w2" using bound by (simp add: substring_def length_filter_text)
    have "filter_text ?t tx ! (p + i) = star"
      using occurrence_masked[OF t2 ne2 assms(7), of "p + i"] i by simp
    with i bound show "substring (filter_text ?t tx) p (p + length ?w2) ! i = replicate (length ?w2) star ! i"
      by (simp add: substring_def length_filter_text)
  qed
  with s1 s2 show ?thesis by (simp add: length_filter_text)
qed

text \<open>Claim C8, amended, for the words ab and abcd and the text abcd.\<close>

theorem prefix_pair_masked_witness:
  "length (filter_text (buildTrie [js ''ab'', js ''abcd'']) (js ''abcd'')) = length (js ''abcd'') \<and>
   substring (filter_text (buildTrie [js ''ab'', js ''abcd'']) (js ''abcd'')) 0
       (0 + length (js ''ab'' @ js ''cd'')) =
     replicate (length (js ''ab'' @ js ''cd'')) star \<and>
   (0, 0 + length (js ''ab'' @ js ''cd'')) \<in>
     replacedSpans (buildTrie [js ''ab'', js ''abcd'']) (js ''abcd'') \<and>
   (0, 0 + length (js ''ab'')) \<in>
     replacedSpans (buildTrie [js ''ab'', js ''abcd'']) (js ''abcd'')"
proof -
  have h: "js ''ab'' \<in> set [js ''ab'', js ''abcd'']" "js ''ab'' @ js ''cd'' \<in> set [js ''ab'', js ''abcd'']"
    "js ''ab'' \<noteq> []" "js ''cd'' \<noteq> []" "pair_free (js ''ab'')" "pair_free (js ''ab'' @ js ''cd'')"
    "occurs_at (js ''ab'' @ js ''cd'') 0 (js ''abcd'')"
    by (simp_all add: js_def is_high_def is_low_def occurs_at_def)
  from prefix_pair_masked[OF h] show ?thesis .
qed

text \<open>
  Claim C8 as first stated fails on its own example: for the words ab and abcd and the
  text abcd, \<open>filter\<close> replaces two overlapping spans, 0 to 4 and 0 to 2, so positions 0
  and 1 are masked twice.
\<close>

theorem prefix_pair_replaced_twice:
  "(0, 4) \<in> replacedSpans (buildTrie [js ''ab'', js ''abcd'']) (js ''abcd'') \<and>
   (0, 2) \<in> replacedSpans (buildTrie [js ''ab'', js ''abcd'']) (js ''abcd'')"
  by code_simp

section \<open>The admission pipeline\<close>

lemma filter_text_Nil: "filter_text t [] = []"
  using length_filter_text[of t "[]"] by simp

lemma emitted_emit: "emitted (emit e s) = emitted s @ [e]"
  by (simp add: emit_def)

lemma emit_fields [simp]:
  "roomInfo (emit e s) = roomInfo s" "redisClient (emit e s) = redisClient s"
  "config (emit e s) = config s" "sensitiveWordTrie (emit e s) = sensitiveWordTrie s"
  "userMessages (emit e s) = userMessages s" "idsIssued (emit e s) = idsIssued s"
  "pending (emit e s) = pending s"
  by (simp_all add: emit_def)

lemma remember_fields [simp]:
  "roomInfo (remember u c now s) = roomInfo s" "redisClient (remember u c now s) = redisClient s"
  "config (remember u c now s) = config s" "sensitiveWordTrie (remember u c now s) = sensitiveWordTrie s"
  "emitted (remember u c now s) = emitted s" "idsIssued (remember u c now s) = idsIssued s"
  "pending (remember u c now s) = pending s"
  by (simp_all add: remember_def Let_def)

lemma processDanmaku_keeps [simp]:
  "roomInfo (processDanmaku g now sock dat s) = roomInfo s"
  "config (processDanmaku g now sock dat s) = config s"
  "sensitiveWordTrie (processDanmaku g now sock dat s) = sensitiveWordTrie s"
  "pending (processDanmaku g now sock dat s) = pending s"
  by (simp_all add: processDanmaku_def Let_def split: prod.splits)

lemma incrWithExpire_fst:
  "(hasRedis (fst (incrWithExpire now rc key secs)) \<and>
    lim < counterValue (fst (incrWithExpire now rc key secs))) =
   exceeds now rc (fullKey key) lim"
  by (cases rc)
     (auto simp: incrWithExpire_def incr_def expire_def exceeds_def nextCount_def lookup_def
        live_def Let_def split: option.splits if_splits)

lemma incrWithExpire_snd:
  "snd (incrWithExpire now rc key secs) = map_option (\<lambda>c. bump now c (fullKey key) secs) rc"
  by (cases rc)
     (auto simp: incrWithExpire_def incr_def expire_def bump_def lookup_def live_def Let_def
        split: option.splits if_splits)

lemma bump_flags [simp]:
  "incrFails (bump now c k secs) = incrFails c"
  "expireFails (bump now c k secs) = expireFails c"
  by (simp_all add: bump_def Let_def)

lemma nextCount_bump_other [simp]:
  "k' \<noteq> k \<Longrightarrow> nextCount t (bump now c k secs) k' = nextCount t c k'"
  by (simp add: nextCount_def lookup_def bump_def Let_def)

lemma exceeds_bump_other [simp]:
  "k' \<noteq> k \<Longrightarrow>
   exceeds t (map_option (\<lambda>c. bump now c k secs) rc) k' lim = exceeds t rc k' lim"
  by (cases rc) (simp_all add: exceeds_def)

lemma counting_bump [simp]:
  "counting (map_option (\<lambda>c. bump now c k secs) rc) = counting rc"
  by (cases rc) (simp_all add: counting_def)

lemma incrKeys_bump:
  "incrKeys (map_option (\<lambda>c. bump now c k secs) rc) =
     incrKeys rc @ (if counting rc then [k] else [])"
  by (cases rc) (simp_all add: incrKeys_def counting_def bump_def Let_def)

lemma exceeds_healthy:
  "\<not> incrFails c \<Longrightarrow> \<not> expireFails c \<Longrightarrow>
   exceeds now (Some c) k lim = (lim < nextCount now c k)"
  by (simp add: exceeds_def)

lemma checkRateLimit_general:
  "allowed (fst (checkRateLimit cfg now rc u r)) =
     (\<not> exceeds now rc (fullKey (userKey u)) (messagesPerSecond (userRateLimit cfg)) \<and>
      \<not> exceeds now rc (fullKey (roomKey r)) (messagesPerSecond (roomRateLimit cfg)))"
  "reason (fst (checkRateLimit cfg now rc u r)) =
     (if exceeds now rc (fullKey (userKey u)) (messagesPerSecond (userRateLimit cfg))
      then SendTooFrequent (messagesPerSecond (userRateLimit cfg))
      else if exceeds now rc (fullKey (roomKey r)) (messagesPerSecond (roomRateLimit cfg))
      then RoomTooBusy else RateLimitPassed)"
  "snd (checkRateLimit cfg now rc u r) =
     (if exceeds now rc (fullKey (userKey u)) (messagesPerSecond (userRateLimit cfg))
      then map_option (\<lambda>c. bump now c (fullKey (userKey u)) (timeWindow (userRateLimit cfg))) rc
      else map_option (\<lambda>c. bump now c (fullKey (roomKey r)) (timeWindow (roomRateLimit cfg)))
             (map_option (\<lambda>c. bump now c (fullKey (userKey u)) (timeWindow (userRateLimit cfg))) rc))"
proof -
  have neq: "fullKey (roomKey r) \<noteq> fullKey (userKey u)"
    using userKey_neq_roomKey[of u r] by simp
  show "allowed (fst (checkRateLimit cfg now rc u r)) =
     (\<not> exceeds now rc (fullKey (userKey u)) (messagesPerSecond (userRateLimit cfg)) \<and>
      \<not> exceeds now rc (fullKey (roomKey r)) (messagesPerSecond (roomRateLimit cfg)))"
    using neq by (simp add: checkRateLimit_def split_def incrWithExpire_fst incrWithExpire_snd)
  show "reason (fst (checkRateLimit cfg now rc u r)) =
     (if exceeds now rc (fullKey (userKey u)) (messagesPerSecond (userRateLimit cfg))
      then SendTooFrequent (messagesPerSecond (userRateLimit cfg))
      else if exceeds now rc (fullKey (roomKey r)) (messagesPerSecond (roomRateLimit cfg))
      then RoomTooBusy else RateLimitPassed)"
    using neq by (simp add: checkRateLimit_def split_def incrWithExpire_fst incrWithExpire_snd)
  show "snd (checkRateLimit cfg now rc u r) =
     (if exceeds now rc (fullKey (userKey u)) (messagesPerSecond (userRateLimit cfg))
      then map_option (\<lambda>c. bump now c (fullKey (userKey u)) (timeWindow (userRateLimit cfg))) rc
      else map_option (\<lambda>c. bump now c (fullKey (roomKey r)) (timeWindow (roomRateLimit cfg)))
             (map_option (\<lambda>c. bump now c (fullKey (userKey u)) (timeWindow (userRateLimit cfg))) rc))"
    using neq by (simp add: checkRateLimit_def split_def incrWithExpire_fst incrWithExpire_snd)
qed

lemma countDuplicate_general:
  "allowed (fst (countDuplicate cfg now rc key)) =
     (\<not> exceeds now rc (fullKey key) (maxDuplicateCount cfg))"
  "snd (countDuplicate cfg now rc key) =
     map_option (\<lambda>c. bump now c (fullKey key) (duplicateTimeWindow cfg)) rc"
  by (simp_all add: countDuplicate_def split_def incrWithExpire_fst incrWithExpire_snd)

lemma checkDuplicateMessage_general:
  "allowed (fst (checkDuplicateMessage cfg now rc uid v)) =
     (\<not> (case duplicateKeyOf uid v of
            None \<Rightarrow> False
          | Some k \<Rightarrow> exceeds now rc k (maxDuplicateCount cfg) \<and> printable v))"
  "snd (checkDuplicateMessage cfg now rc uid v) =
     (case duplicateKeyOf uid v of
        None \<Rightarrow> rc
      | Some k \<Rightarrow> map_option (\<lambda>c. bump now c k (duplicateTimeWindow cfg)) rc)"
  by (auto simp: checkDuplicateMessage_def duplicateKeyOf_def split_def countDuplicate_general
        failOpen_def split: option.splits)

lemma duplicateKeyOf_JStr [simp]:
  "duplicateKeyOf uid (JStr s) = Some (fullKey (duplicateKey uid (hashString s)))"
  by (simp add: duplicateKeyOf_def)

lemma duplicateKeyOf_neq:
  "duplicateKeyOf uid v = Some k \<Longrightarrow> k \<noteq> fullKey (userKey u) \<and> k \<noteq> fullKey (roomKey r)"
  using duplicateKey_neq_userKey duplicateKey_neq_roomKey
  by (auto simp: duplicateKeyOf_def split: option.splits)

lemma processDanmaku_general:
  assumes names: "d = danmaku dat" "uid = senderOf sock d" "uk = fullKey (userKey uid)"
      "rk = fullKey (roomKey (roomId dat))" "dk = duplicateKeyOf uid (checkContent d)"
      "cfg = config srv" "rc = redisClient srv" "srv' = processDanmaku g now sock dat srv"
  shows "incrKeys (redisClient srv') = incrKeys rc @
           (if \<not> counting rc then []
            else if exceeds now rc uk (messagesPerSecond (userRateLimit cfg)) then [uk]
            else if exceeds now rc rk (messagesPerSecond (roomRateLimit cfg)) then [uk, rk]
            else uk # rk # (case dk of None \<Rightarrow> [] | Some k \<Rightarrow> [k])) \<and>
         emitted srv' = emitted srv @
           [if exceeds now rc uk (messagesPerSecond (userRateLimit cfg))
              then SendFailed (socketId sock) (SendTooFrequent (messagesPerSecond (userRateLimit cfg)))
            else if exceeds now rc rk (messagesPerSecond (roomRateLimit cfg))
              then SendFailed (socketId sock) RoomTooBusy
            else if (case dk of
                       None \<Rightarrow> False
                     | Some k \<Rightarrow> exceeds now rc k (maxDuplicateCount cfg) \<and> printable (checkContent d))
              then SendFailed (socketId sock) DoNotRepeat
            else if truthy (content d) \<and> \<not> allowed (filterDanmaku (sensitiveWordTrie srv) (content d))
              then SendFailed (socketId sock) ContentHasSensitiveWord
            else NewDanmaku (roomId dat)
                   (finalize (g (idsIssued srv)) now d
                      (if truthy (content d)
                       then JStr (filterResult.content (filterDanmaku (sensitiveWordTrie srv) (content d)))
                       else content d))]"
proof -
  let ?ul = "messagesPerSecond (userRateLimit cfg)" and ?rl = "messagesPerSecond (roomRateLimit cfg)"
  let ?rate = "checkRateLimit cfg now rc uid (roomId dat)"
  let ?dup = "checkDuplicateMessage cfg now (snd ?rate) uid (checkContent d)"
  have neq: "rk \<noteq> uk" using userKey_neq_roomKey[of uid "roomId dat"] names by simp
  have unfold: "srv' =
    (if \<not> allowed (fst ?rate)
     then emit (SendFailed (socketId sock) (reason (fst ?rate))) (srv\<lparr>redisClient := snd ?rate\<rparr>)
     else if \<not> allowed (fst ?dup)
     then emit (SendFailed (socketId sock) DoNotRepeat) (srv\<lparr>redisClient := snd ?dup\<rparr>)
     else if \<not> fst (contentCheck (sensitiveWordTrie srv) (content d))
     then emit (SendFailed (socketId sock) ContentHasSensitiveWord) (srv\<lparr>redisClient := snd ?dup\<rparr>)
     else emit (NewDanmaku (roomId dat)
                 (finalize (g (idsIssued srv)) now d (snd (contentCheck (sensitiveWordTrie srv) (content d)))))
            (remember uid (content d) now
               (srv\<lparr>redisClient := snd ?dup, idsIssued := Suc (idsIssued srv)\<rparr>)))"
    by (simp add: names processDanmaku_def Let_def split_def)
  show ?thesis
  proof (cases "exceeds now rc uk ?ul")
    case True
    then show ?thesis
      unfolding unfold
      by (simp add: names[symmetric] checkRateLimit_general emitted_emit incrKeys_bump
          exceeds_def counting_def split: option.splits)
  next
    case u: False
    show ?thesis
    proof (cases "exceeds now rc rk ?rl")
      case True
      then show ?thesis
        unfolding unfold using u
        by (simp add: names[symmetric] checkRateLimit_general emitted_emit incrKeys_bump
            exceeds_def counting_def split: option.splits)
    next
      case r: False
      show ?thesis
      proof (cases dk)
        case None
        then show ?thesis
          unfolding unfold using u r
          by (simp add: names[symmetric] checkRateLimit_general checkDuplicateMessage_general
              emitted_emit incrKeys_bump contentCheck_def Let_def)
      next
        case (Some k)
        then have nk: "k \<noteq> uk" "k \<noteq> rk"
          using duplicateKeyOf_neq[of uid "checkContent d" k] names by auto
        show ?thesis
          unfolding unfold using u r Some nk
          by (simp add: names[symmetric] checkRateLimit_general checkDuplicateMessage_general
              emitted_emit incrKeys_bump contentCheck_def Let_def)
      qed
    qed
  qed
qed

lemma trim_Nil: "trim [] = []"
  by (simp add: trim_def)

lemma trim_ends:
  "trim s = [] \<or> (\<not> is_space (hd (trim s)) \<and> \<not> is_space (last (trim s)))"
proof (cases "trim s = []")
  case True
  then show ?thesis by simp
next
  case False
  define a where "a = dropWhile is_space s"
  define b where "b = dropWhile is_space (rev a)"
  have t: "trim s = rev b" by (simp add: trim_def a_def b_def)
  with False have b: "b \<noteq> []" by simp
  then have hb: "\<not> is_space (hd b)" unfolding b_def by (rule hd_dropWhile)
  from b have a: "a \<noteq> []" by (auto simp: b_def)
  then have ha: "\<not> is_space (hd a)" unfolding a_def by (rule hd_dropWhile)
  have "rev a = takeWhile is_space (rev a) @ b" by (simp add: b_def)
  then have "last (rev a) = last b" using b by (metis last_appendR)
  with a have "last b = hd a" by (simp add: last_rev)
  with ha hb b t show ?thesis by (simp add: hd_rev last_rev)
qed

lemma filterSensitive_allowed:
  "allowed (filterSensitive t tr) \<Longrightarrow> filterResult.content (filterSensitive t tr) = tr"
  by (auto simp: filterSensitive_def Let_def split: option.splits)

lemma filterDanmaku_string_allowed:
  "allowed (filterDanmaku t (JStr s)) \<Longrightarrow> filterResult.content (filterDanmaku t (JStr s)) = trim s"
  by (auto simp: Let_def trim_Nil dest: filterSensitive_allowed split: if_splits)

lemma processDanmaku_emits:
  "\<exists>e. emitted (processDanmaku g now sock dat srv) = emitted srv @ [e] \<and>
       (\<forall>rid m. e = NewDanmaku rid m \<longrightarrow>
          rid = roomId dat \<and>
          fst (contentCheck (sensitiveWordTrie srv) (content (danmaku dat))) \<and>
          danmaku.content m = snd (contentCheck (sensitiveWordTrie srv) (content (danmaku dat))))"
  by (auto simp: processDanmaku_def Let_def emitted_emit finalize_def split: prod.splits)

lemma masking_changes_text:
  assumes "terminal t (map (\<lambda>c. [c]) w)" "w \<noteq> []" "star \<notin> set w" "contains tx w"
  shows "filter_text t tx \<noteq> tx"
proof -
  from assms(4) obtain p where occ: "occurs_at w p tx" by (auto simp: contains_iff)
  from occurrence_masked[OF assms(1,2) occ, of p] assms(2)
  have "filter_text t tx ! p = star" by simp
  moreover from occurs_at_nth[OF occ, of 0] assms(2) have "tx ! p = w ! 0" by simp
  moreover from assms(2,3) have "w ! 0 \<noteq> star" by (metis length_greater_0_conv nth_mem)
  ultimately show ?thesis by metis
qed

text \<open>
  Claim C1, amended. When the trimmed text of a message contains a configured word (not
  empty, without mask character, without surrogate pair) and the message has passed the
  rate limit and the duplicate check, masking changes the text, the content filter
  reports the message as not allowed (with the masked text as its content when the text
  is at most 50 units long), and the pipeline refuses the message with the sensitive-word
  notice to its sender: it emits that notice and nothing else.
\<close>

theorem sensitive_message_rejected:
  assumes trie: "sensitiveWordTrie srv = Some (buildTrie ws)"
    and w: "w \<in> set ws" "w \<noteq> []" "star \<notin> set w" "pair_free w"
    and msg: "content (danmaku dat) = JStr s" "contains (trim s) w"
    and rate: "checkRateLimit (config srv) now (redisClient srv) (senderOf sock (danmaku dat))
                 (roomId dat) = (rl, rc1)" "allowed rl"
    and dup: "checkDuplicateMessage (config srv) now rc1 (senderOf sock (danmaku dat))
                (checkContent (danmaku dat)) = (du, rc2)" "allowed du"
  shows "filter_text (buildTrie ws) (trim s) \<noteq> trim s \<and>
         \<not> allowed (filterDanmaku (sensitiveWordTrie srv) (JStr s)) \<and>
         (length (trim s) \<le> 50 \<longrightarrow>
            filterDanmaku (sensitiveWordTrie srv) (JStr s) =
              \<lparr>allowed = False, reason = HasSensitiveWord,
               filterResult.content = filter_text (buildTrie ws) (trim s)\<rparr>) \<and>
         processDanmaku g now sock dat srv =
           emit (SendFailed (socketId sock) ContentHasSensitiveWord) (srv\<lparr>redisClient := rc2\<rparr>)"
proof -
  have ch: "filter_text (buildTrie ws) (trim s) \<noteq> trim s"
    using masking_changes_text[OF terminal_word[OF w(1,4)] w(2,3) msg(2)] .
  have "trim s \<noteq> []" using msg(2) w(2) by (auto simp: contains_iff occurs_at_def)
  then have ne: "s \<noteq> []" by (auto simp: trim_Nil)
  have rej: "\<not> allowed (filterDanmaku (sensitiveWordTrie srv) (JStr s))"
    using ch ne by (simp add: trie filterSensitive_def Let_def)
  have short: "length (trim s) \<le> 50 \<Longrightarrow>
      filterDanmaku (sensitiveWordTrie srv) (JStr s) =
        \<lparr>allowed = False, reason = HasSensitiveWord, filterResult.content = filter_text (buildTrie ws) (trim s)\<rparr>"
    using ch ne by (simp add: trie filterSensitive_def Let_def)
  have "processDanmaku g now sock dat srv =
      emit (SendFailed (socketId sock) ContentHasSensitiveWord) (srv\<lparr>redisClient := rc2\<rparr>)"
    using rate dup rej ne msg(1)
    by (simp add: processDanmaku_def Let_def contentCheck_def)
  with ch rej short show ?thesis by blast
qed

text \<open>
  Claim C10, amended. The content filter refuses a string whose trimmed form is longer
  than 50 code units, with the length reason, and refuses truthy content that is not a
  string, with the format reason; content that is neither truthy nor a string is taken
  as empty text and accepted. Accepted textual content is the trimmed input, which neither
  starts nor ends with whitespace, and a broadcast message made from string content
  carries the trimmed string.
\<close>

theorem filterDanmaku_validation:
  "(50 < length (trim s1) \<longrightarrow>
      filterDanmaku t (JStr s1) = \<lparr>allowed = False, reason = ContentTooLong, filterResult.content = trim s1\<rparr>) \<and>
   (truthy v1 \<and> (\<forall>x. v1 \<noteq> JStr x) \<longrightarrow>
      filterDanmaku t v1 = \<lparr>allowed = False, reason = ContentFormatError, filterResult.content = []\<rparr>) \<and>
   (\<not> truthy v2 \<and> (\<forall>x. v2 \<noteq> JStr x) \<longrightarrow>
      allowed (filterDanmaku t v2) \<and> filterResult.content (filterDanmaku t v2) = []) \<and>
   (allowed (filterDanmaku t (JStr s2)) \<longrightarrow>
      filterResult.content (filterDanmaku t (JStr s2)) = trim s2 \<and>
      (trim s2 = [] \<or> \<not> is_space (hd (trim s2)) \<and> \<not> is_space (last (trim s2)))) \<and>
   (content (danmaku dat) = JStr s3 \<and>
    NewDanmaku rid m \<in> set (emitted (processDanmaku g now sock dat srv)) \<and>
    NewDanmaku rid m \<notin> set (emitted srv) \<longrightarrow>
      danmaku.content m = JStr (trim s3))"
proof -
  have p1: "50 < length (trim s1) \<longrightarrow>
      filterDanmaku t (JStr s1) = \<lparr>allowed = False, reason = ContentTooLong, filterResult.content = trim s1\<rparr>"
    by (auto simp: Let_def trim_Nil)
  have p2: "truthy v1 \<and> (\<forall>x. v1 \<noteq> JStr x) \<longrightarrow>
      filterDanmaku t v1 = \<lparr>allowed = False, reason = ContentFormatError, filterResult.content = []\<rparr>"
    by (cases v1) simp_all
  have p3: "\<not> truthy v2 \<and> (\<forall>x. v2 \<noteq> JStr x) \<longrightarrow>
      allowed (filterDanmaku t v2) \<and> filterResult.content (filterDanmaku t v2) = []"
    by (cases v2) (auto simp: filterSensitive_def filter_text_Nil Let_def split: option.splits)
  have p4: "allowed (filterDanmaku t (JStr s2)) \<longrightarrow>
      filterResult.content (filterDanmaku t (JStr s2)) = trim s2 \<and>
      (trim s2 = [] \<or> \<not> is_space (hd (trim s2)) \<and> \<not> is_space (last (trim s2)))"
    using filterDanmaku_string_allowed[of t s2] trim_ends[of s2] by blast
  have p5: "content (danmaku dat) = JStr s3 \<and>
    NewDanmaku rid m \<in> set (emitted (processDanmaku g now sock dat srv)) \<and>
    NewDanmaku rid m \<notin> set (emitted srv) \<longrightarrow>
      danmaku.content m = JStr (trim s3)"
  proof (intro impI, elim conjE)
    assume c: "content (danmaku dat) = JStr s3"
      and i: "NewDanmaku rid m \<in> set (emitted (processDanmaku g now sock dat srv))"
      and n: "NewDanmaku rid m \<notin> set (emitted srv)"
    from processDanmaku_emits[of g now sock dat srv] obtain e where
      e: "emitted (processDanmaku g now sock dat srv) = emitted srv @ [e]"
      and f: "\<forall>rid m. e = NewDanmaku rid m \<longrightarrow>
          rid = roomId dat \<and>
          fst (contentCheck (sensitiveWordTrie srv) (content (danmaku dat))) \<and>
          danmaku.content m = snd (contentCheck (sensitiveWordTrie srv) (content (danmaku dat)))"
      by blast
    from e i n have "e = NewDanmaku rid m" by auto
    with f have ok: "fst (contentCheck (sensitiveWordTrie srv) (JStr s3))"
      and cm: "danmaku.content m = snd (contentCheck (sensitiveWordTrie srv) (JStr s3))"
      using c by auto
    show "danmaku.content m = JStr (trim s3)"
    proof (cases "s3 = []")
      case True
      with cm show ?thesis by (simp add: contentCheck_def trim_Nil)
    next
      case False
      with ok have "allowed (filterDanmaku (sensitiveWordTrie srv) (JStr s3))"
        by (simp add: contentCheck_def Let_def)
      from filterDanmaku_string_allowed[OF this] cm False show ?thesis
        by (simp add: contentCheck_def Let_def)
    qed
  qed
  from p1 p2 p3 p4 p5 show ?thesis by blast
qed


lemma nextCount_emptyRedis: "nextCount t emptyRedis k = 1"
  by (simp add: nextCount_def lookup_def emptyRedis_def)


lemma defaultConfig_fields:
  "messagesPerSecond (userRateLimit defaultConfig) = 2"
  "timeWindow (userRateLimit defaultConfig) = 1"
  "messagesPerSecond (roomRateLimit defaultConfig) = 1000"
  "timeWindow (roomRateLimit defaultConfig) = 1"
  "maxDuplicateCount defaultConfig = 3"
  "duplicateTimeWindow defaultConfig = 10"
  by (simp_all add: defaultConfig_def)

lemma startServer_fields:
  "sensitiveWordTrie (startServer rc) = Some (buildTrie defaultWords)"
  "config (startServer rc) = defaultConfig"
  "redisClient (startServer rc) = rc"
  "roomInfo (startServer rc) = []"
  "emitted (startServer rc) = []"
  "idsIssued (startServer rc) = 0"
  by (simp_all add: startServer_def)

lemma spam_rejected_by_filter:
  "\<not> allowed (filterDanmaku (Some (buildTrie defaultWords)) (JStr (js ''buy spam now'')))"
  by code_simp

lemma hello_passes_filter:
  "filterDanmaku (Some (buildTrie defaultWords)) (JStr (js '' hello '')) =
     \<lparr>allowed = True, reason = FilterPassed, filterResult.content = js ''hello''\<rparr>"
  by code_simp

lemma emptyRedis_healthy: "\<not> incrFails emptyRedis" "\<not> expireFails emptyRedis"
  by (simp_all add: emptyRedis_def)



lemma textData_fields:
  "roomId (textData s) = js ''lobby''"
  "danmaku.content (danmaku (textData s)) = JStr s"
  "checkContent (danmaku (textData s)) = JStr s"
  "senderOf sock (danmaku (textData s)) = js ''alice''"
  by (simp_all add: textData_def checkContent_def senderOf_def js_def)


lemma socket_fields: "socketId aliceSocket = js ''s1''" "socketId bobSocket = js ''s2''"
  by (simp_all add: aliceSocket_def bobSocket_def)

lemma processDanmaku_emitted_healthy:
  assumes "redisClient srv = Some c" "\<not> incrFails c" "\<not> expireFails c"
  shows "emitted (processDanmaku g now sock dat srv) = emitted srv @
     [if messagesPerSecond (userRateLimit (config srv))
           < nextCount now c (fullKey (userKey (senderOf sock (danmaku dat))))
        then SendFailed (socketId sock)
               (SendTooFrequent (messagesPerSecond (userRateLimit (config srv))))
      else if messagesPerSecond (roomRateLimit (config srv))
           < nextCount now c (fullKey (roomKey (roomId dat)))
        then SendFailed (socketId sock) RoomTooBusy
      else if (case duplicateKeyOf (senderOf sock (danmaku dat)) (checkContent (danmaku dat)) of
                 None \<Rightarrow> False
               | Some k \<Rightarrow> maxDuplicateCount (config srv) < nextCount now c k \<and>
                           printable (checkContent (danmaku dat)))
        then SendFailed (socketId sock) DoNotRepeat
      else if truthy (danmaku.content (danmaku dat)) \<and>
              \<not> allowed (filterDanmaku (sensitiveWordTrie srv) (danmaku.content (danmaku dat)))
        then SendFailed (socketId sock) ContentHasSensitiveWord
      else NewDanmaku (roomId dat)
             (finalize (g (idsIssued srv)) now (danmaku dat)
                (if truthy (danmaku.content (danmaku dat))
                 then JStr (filterResult.content
                        (filterDanmaku (sensitiveWordTrie srv) (danmaku.content (danmaku dat))))
                 else danmaku.content (danmaku dat)))]"
  using processDanmaku_general[where sock = sock and dat = dat and srv = srv and g = g
      and now = now, OF refl refl refl refl refl refl refl refl, THEN conjunct2]
  by (simp add: assms exceeds_healthy cong: option.case_cong)


text \<open>
  Claim C1 as first stated fails: a message whose text holds the configured word spam
  passes the rate limit and the duplicate check of a fresh store, and is then refused with
  the sensitive-word notice; nothing is broadcast.
\<close>

theorem spam_message_is_rejected:
  "js ''spam'' \<in> set defaultWords \<and>
   contains (js ''buy spam now'') (js ''spam'') \<and>
   emitted (processDanmaku sampleIds 0 aliceSocket (textData (js ''buy spam now''))
              (startServer (Some emptyRedis))) =
     [SendFailed (js ''s1'') ContentHasSensitiveWord]"
proof -
  have a: "js ''spam'' \<in> set defaultWords" by (simp add: defaultWords_def)
  have b: "contains (js ''buy spam now'') (js ''spam'')" by code_simp
  have t: "truthy (JStr (js ''buy spam now''))" by (simp add: js_def)
  have c: "emitted (processDanmaku sampleIds 0 aliceSocket (textData (js ''buy spam now''))
              (startServer (Some emptyRedis))) =
     [SendFailed (js ''s1'') ContentHasSensitiveWord]"
    by (subst processDanmaku_emitted_healthy[where c = emptyRedis])
       (simp_all only: startServer_fields emptyRedis_healthy nextCount_emptyRedis
          defaultConfig_fields textData_fields socket_fields duplicateKeyOf_JStr
          spam_rejected_by_filter t, simp_all)
  from a b c show ?thesis by blast
qed


lemma checkRateLimit_None:
  "checkRateLimit cfg now None u r =
     (\<lparr>allowed = True, reason = RateLimitPassed, limit = None, current = None\<rparr>, None)"
  by (simp add: checkRateLimit_def incrWithExpire_None)

lemma countDuplicate_None:
  "countDuplicate cfg now None k =
     (\<lparr>allowed = True, reason = DuplicatePassed, currentCount = None, maxCount = None\<rparr>, None)"
  by (simp add: countDuplicate_def incrWithExpire_None)

text \<open>Claim C1, amended, for a message holding the word spam while the store is absent.\<close>

theorem sensitive_message_rejected_witness:
  "filter_text (buildTrie defaultWords) (trim (js '' free spam '')) \<noteq> trim (js '' free spam '') \<and>
   \<not> allowed (filterDanmaku (Some (buildTrie defaultWords)) (JStr (js '' free spam ''))) \<and>
   emitted (processDanmaku sampleIds 5 bobSocket (textData (js '' free spam '')) (startServer None)) =
     [SendFailed (js ''s2'') ContentHasSensitiveWord]"
proof -
  let ?srv = "startServer None" and ?dat = "textData (js '' free spam '')"
  have trie: "sensitiveWordTrie ?srv = Some (buildTrie defaultWords)" by (simp add: startServer_fields)
  have w: "js ''spam'' \<in> set defaultWords" "js ''spam'' \<noteq> []" "star \<notin> set (js ''spam'')"
    "pair_free (js ''spam'')"
    by (simp_all add: defaultWords_def js_def star_def is_high_def is_low_def)
  have msg: "danmaku.content (danmaku ?dat) = JStr (js '' free spam '')"
    by (simp add: textData_fields)
  have occ: "contains (trim (js '' free spam '')) (js ''spam'')" by code_simp
  have rate: "checkRateLimit (config ?srv) 5 (redisClient ?srv) (senderOf bobSocket (danmaku ?dat))
      (roomId ?dat) =
        (\<lparr>allowed = True, reason = RateLimitPassed, limit = None, current = None\<rparr>, None)"
    by (simp add: startServer_fields checkRateLimit_None)
  have dup: "checkDuplicateMessage (config ?srv) 5 None (senderOf bobSocket (danmaku ?dat))
      (checkContent (danmaku ?dat)) =
        (\<lparr>allowed = True, reason = DuplicatePassed, currentCount = None, maxCount = None\<rparr>, None)"
    by (simp add: textData_fields countDuplicate_None)
  from sensitive_message_rejected[OF trie w msg occ rate _ dup, of sampleIds]
  show ?thesis by (simp add: startServer_fields emitted_emit socket_fields)
qed




text \<open>
  Claim C10, amended, at a string of 51 letters, the number 5, \<open>false\<close>, and a padded
  hello sent through the pipeline.
\<close>

theorem filterDanmaku_validation_witness:
  "filterDanmaku (Some (buildTrie defaultWords)) (JStr (replicate 51 97)) =
     \<lparr>allowed = False, reason = ContentTooLong, filterResult.content = trim (replicate 51 97)\<rparr> \<and>
   filterDanmaku (Some (buildTrie defaultWords)) (JNum 5) =
     \<lparr>allowed = False, reason = ContentFormatError, filterResult.content = []\<rparr> \<and>
   allowed (filterDanmaku (Some (buildTrie defaultWords)) (JBool False)) \<and>
   filterResult.content (filterDanmaku (Some (buildTrie defaultWords)) (JStr (js '' hello ''))) =
     trim (js '' hello '') \<and>
   danmaku.content (finalize (sampleIds 0) 0 (danmaku (textData (js '' hello ''))) (JStr (js ''hello''))) =
     JStr (trim (js '' hello ''))"
proof -
  let ?t = "Some (buildTrie defaultWords)"
  let ?m = "finalize (sampleIds 0) 0 (danmaku (textData (js '' hello ''))) (JStr (js ''hello''))"
  have h1: "50 < length (trim (replicate 51 (97 :: code_unit)))" by code_simp
  have h2: "truthy (JNum 5) \<and> (\<forall>x. JNum 5 \<noteq> JStr x)" by simp
  have h3: "\<not> truthy (JBool False) \<and> (\<forall>x. JBool False \<noteq> JStr x)" by simp
  have h4: "allowed (filterDanmaku ?t (JStr (js '' hello '')))" by (subst hello_passes_filter) simp
  have t: "js '' hello '' \<noteq> []" by (simp add: js_def)
  have em: "emitted (processDanmaku sampleIds 0 aliceSocket (textData (js '' hello ''))
      (startServer (Some emptyRedis))) = [NewDanmaku (js ''lobby'') ?m]"
    by (subst processDanmaku_emitted_healthy[where c = emptyRedis])
       (simp_all add: startServer_fields emptyRedis_healthy nextCount_emptyRedis defaultConfig_fields
          textData_fields socket_fields hello_passes_filter t del: filterDanmaku.simps)
  have h5: "danmaku.content (danmaku (textData (js '' hello ''))) = JStr (js '' hello '') \<and>
    NewDanmaku (js ''lobby'') ?m \<in> set (emitted (processDanmaku sampleIds 0 aliceSocket
       (textData (js '' hello '')) (startServer (Some emptyRedis)))) \<and>
    NewDanmaku (js ''lobby'') ?m \<notin> set (emitted (startServer (Some emptyRedis)))"
    by (simp add: em textData_fields startServer_fields)
  from filterDanmaku_validation[of "replicate 51 97" ?t "JNum 5" "JBool False" "js '' hello ''"
      "textData (js '' hello '')" "js '' hello ''" "js ''lobby''" ?m sampleIds 0 aliceSocket
      "startServer (Some emptyRedis)"] h1 h2 h3 h4 h5
  show ?thesis by blast
qed

text \<open>
  Claim C10 as first stated fails for content that is neither a string nor truthy:
  \<open>null\<close>, \<open>undefined\<close>, \<open>false\<close> and the number 0 are taken as an empty text and accepted.
\<close>

theorem falsy_content_is_accepted:
  "allowed (filterDanmaku (Some (buildTrie defaultWords)) JNull) \<and>
   allowed (filterDanmaku (Some (buildTrie defaultWords)) JUndefined) \<and>
   allowed (filterDanmaku (Some (buildTrie defaultWords)) (JBool False)) \<and>
   allowed (filterDanmaku (Some (buildTrie defaultWords)) (JNum 0))"
  by (simp add: filterSensitive_def filter_text_Nil)

section \<open>Rooms and queues\<close>

lemma enqueue_fields [simp]:
  "emitted (enqueue sock dat r s) = emitted s" "redisClient (enqueue sock dat r s) = redisClient s"
  "pending (enqueue sock dat r s) = pending s"
  by (simp_all add: enqueue_def)


lemma processMessageQueue_fields [simp]:
  "emitted (processMessageQueue rid s) = emitted s"
  "redisClient (processMessageQueue rid s) = redisClient s"
  by (simp_all add: processMessageQueue_def Let_def split: option.splits)







lemma updateOnlineCount_roomInfo [simp]:
  "roomInfo (updateOnlineCount rid s) = roomInfo s"
  by (simp add: updateOnlineCount_def split: option.splits)

lemma removeUser_other:
  "k \<noteq> rid \<Longrightarrow> map_of (roomInfo (removeUser sock k r s)) rid = map_of (roomInfo s) rid"
  by (simp add: removeUser_def Let_def update_conv' delete_conv')

lemma removeUser_last:
  assumes "set (onlineUsers r) = {socketId sock}" "messageQueue r = []"
  shows "map_of (roomInfo (removeUser sock rid r s)) rid = None"
proof -
  have "set (removeAll (socketId sock) (onlineUsers r)) = {}" using assms(1) by simp
  then have "removeAll (socketId sock) (onlineUsers r) = []" by (simp only: set_empty)
  then show ?thesis
    using assms(2) by (simp add: removeUser_def Let_def setDelete_def delete_conv')
qed

lemma disconnectStep_other:
  "k \<noteq> rid \<Longrightarrow> map_of (roomInfo (disconnectStep sock k s)) rid = map_of (roomInfo s) rid"
  by (simp add: disconnectStep_def removeUser_other split: option.splits)

lemma disconnectStep_gone:
  "map_of (roomInfo s) rid = None \<Longrightarrow> map_of (roomInfo (disconnectStep sock k s)) rid = None"
  by (cases "k = rid") (simp_all add: disconnectStep_other, simp add: disconnectStep_def)

lemma fold_disconnectStep_gone:
  "map_of (roomInfo s) rid = None \<Longrightarrow>
   map_of (roomInfo (fold (disconnectStep sock) ks s)) rid = None"
  by (induction ks arbitrary: s) (simp_all add: disconnectStep_gone)

lemma fold_disconnectStep_last:
  assumes "set (onlineUsers r) = {socketId sock}" "messageQueue r = []"
  shows "map_of (roomInfo s) rid = Some r \<Longrightarrow> rid \<in> set ks \<Longrightarrow>
         map_of (roomInfo (fold (disconnectStep sock) ks s)) rid = None"
proof (induction ks arbitrary: s)
  case Nil
  then show ?case by simp
next
  case (Cons k ks)
  show ?case
  proof (cases "k = rid")
    case True
    have "map_of (roomInfo (disconnectStep sock k s)) rid = None"
      using Cons.prems(1) assms True by (simp add: disconnectStep_def removeUser_last)
    then show ?thesis by (simp add: fold_disconnectStep_gone)
  next
    case False
    with Cons.prems have "map_of (roomInfo (disconnectStep sock k s)) rid = Some r" "rid \<in> set ks"
      by (simp_all add: disconnectStep_other)
    from Cons.IH[OF this] show ?thesis by simp
  qed
qed

lemma initRoom_fresh:
  "map_of (roomInfo s) rid = None \<Longrightarrow>
   map_of (roomInfo (initRoom now rid s)) rid =
     Some \<lparr>onlineUsers = [], messageQueue = [], lastProcessTime = now\<rparr>"
  by (simp add: initRoom_def update_conv')

lemma joinRoom_fresh:
  "map_of (roomInfo s) rid = None \<Longrightarrow>
   map_of (roomInfo (joinRoom now sock rid s)) rid =
     Some \<lparr>onlineUsers = [socketId sock], messageQueue = [], lastProcessTime = now\<rparr>"
  by (simp add: joinRoom_def Let_def initRoom_fresh update_conv' setAdd_def)

text \<open>
  Claim C9. When the only member of a room leaves it, by \<open>leave-room\<close> or by
  disconnecting, and the room's queue is empty, the room is no longer in the registry;
  a later join of that room first creates it anew with no member and an empty queue, and
  then holds the joining member alone.
\<close>

theorem room_lifecycle:
  assumes "map_of (roomInfo s) rid = Some r" "set (onlineUsers r) = {socketId sock}"
    "messageQueue r = []" "s' = leaveRoom sock rid s \<or> s' = disconnect sock s"
  shows "map_of (roomInfo s') rid = None \<and>
         map_of (roomInfo (initRoom now rid s')) rid =
           Some \<lparr>onlineUsers = [], messageQueue = [], lastProcessTime = now\<rparr> \<and>
         map_of (roomInfo (joinRoom now sock' rid s')) rid =
           Some \<lparr>onlineUsers = [socketId sock'], messageQueue = [], lastProcessTime = now\<rparr>"
proof -
  have l: "map_of (roomInfo (leaveRoom sock rid s)) rid = None"
    using assms(1-3) by (simp add: leaveRoom_def removeUser_last)
  have "rid \<in> set (map fst (roomInfo s))"
    using assms(1) by (metis map_of_eq_None_iff option.distinct(1) set_map)
  from fold_disconnectStep_last[OF assms(2,3,1) this]
  have d: "map_of (roomInfo (disconnect sock s)) rid = None"
    by (simp add: disconnect_def Let_def)
  from l d assms(4) have gone: "map_of (roomInfo s') rid = None" by blast
  with initRoom_fresh[OF gone] joinRoom_fresh[OF gone] show ?thesis by blast
qed

text \<open>Claim C9 for the room lobby with its single user, joined afterwards by another.\<close>

theorem room_lifecycle_witness:
  "map_of (roomInfo (leaveRoom aliceSocket (js ''lobby'') (lobbyServer [] 0))) (js ''lobby'') = None \<and>
   map_of (roomInfo (disconnect aliceSocket (lobbyServer [] 0))) (js ''lobby'') = None \<and>
   map_of (roomInfo (joinRoom 7 bobSocket (js ''lobby'')
      (leaveRoom aliceSocket (js ''lobby'') (lobbyServer [] 0)))) (js ''lobby'') =
     Some \<lparr>onlineUsers = [socketId bobSocket], messageQueue = [], lastProcessTime = 7\<rparr>"
proof -
  have r: "map_of (roomInfo (lobbyServer [] 0)) (js ''lobby'') =
     Some \<lparr>onlineUsers = [js ''s1''], messageQueue = [], lastProcessTime = 0\<rparr>"
    by (simp add: lobbyServer_def)
  have u: "set (onlineUsers \<lparr>onlineUsers = [js ''s1''], messageQueue = [], lastProcessTime = 0\<rparr>) =
      {socketId aliceSocket}"
    by (simp add: socket_fields)
  have q: "messageQueue \<lparr>onlineUsers = [js ''s1''], messageQueue = ([] :: (socket \<times> data) list),
      lastProcessTime = 0\<rparr> = []"
    by simp
  from room_lifecycle[OF r u q disjI1[OF refl], of 7 bobSocket]
    room_lifecycle[OF r u q disjI2[OF refl], of 7 bobSocket]
  show ?thesis by blast
qed

end
